theory Spec2Isabelle
  imports Complex_Main "HOL-Library.AList"
begin

section \<open>Numbers and the interpolation primitive\<close>

text \<open>
  The video player (\<open>components/VideoPlayer.tsx\<close>) is written in TypeScript on top of
  the Remotion library. JavaScript numbers are idealised as real numbers, so the
  rounding of doubles is not seen; the three values of a JavaScript number that are not
  finite are kept as separate constructors, because \<open>parseFloat\<close> produces them and
  \<open>interpolate\<close> rejects them.
\<close>

datatype number = Num real | NaN | PosInfinity | NegInfinity

datatype extrapolate = Extend | Clamp

text \<open>
  The errors \<open>interpolate\<close> throws, one constructor for each check it makes.
  \<open>ColorError\<close> is left for \<open>interpolateColors\<close>. \<open>NonFiniteInput\<close> is not an
  exception of the source: it marks the one place (a division by a zero duration) where
  JavaScript goes on with \<open>Infinity\<close> or \<open>NaN\<close> and the model stops.
\<close>

datatype error =
    RangeLengthMismatch
  | RangeTooShort
  | RangeNotFinite
  | InputRangeNotIncreasing
  | ColorError string
  | NonFiniteInput

subsection \<open>interpolate\<close>

text \<open>
  \<open>interpolate\<close> is imported from the \<open>remotion\<close> package, whose source is not part
  of the repository. The specification describes it as piecewise-linear interpolation
  between the two bracketing points, clamped at an end only where the caller asks for
  it. The definitions of this subsection model it on that description and on the
  library's contract: both ranges have the same length, at least two entries and only
  finite numbers, the input range is strictly increasing, and anything else is thrown
  as an error. Whether \<open>NaN\<close> counts as not finite has differed between versions of
  the library; here it does. Only the options the player uses, \<open>extend\<close> (the default)
  and \<open>clamp\<close>, are modelled.
\<close>

text \<open>
  Modelled from the spec: the check of \<open>interpolate\<close> that a range holds finite
  numbers only; it yields the numbers, or \<open>None\<close> when one is not finite.
\<close>

fun finite_values :: "number list \<Rightarrow> real list option" where
  "finite_values [] = Some []"
| "finite_values (Num r # ns) = map_option ((#) r) (finite_values ns)"
| "finite_values (_ # ns) = None"

text \<open>
  Modelled from the spec: the check of \<open>interpolate\<close> that the input range is strictly
  increasing, entry by entry.
\<close>

fun checkValidInputRange :: "real list \<Rightarrow> bool" where
  "checkValidInputRange (x # y # zs) = (y > x \<and> checkValidInputRange (y # zs))"
| "checkValidInputRange _ = True"

text \<open>
  Modelled from the spec: the search of \<open>interpolate\<close> for the bracketing segment.
  \<open>findRange_from i input rest\<close> is its loop standing at index \<open>i\<close>, with \<open>rest\<close> the
  input range from index \<open>i\<close> on: it goes on while \<open>i\<close> is not the last index and the
  entry at \<open>i\<close> is below the input, and returns \<open>i - 1\<close>.
\<close>

fun findRange_from :: "nat \<Rightarrow> real \<Rightarrow> real list \<Rightarrow> nat" where
  "findRange_from i input (x # y # rest) =
     (if x \<ge> input then i - 1 else findRange_from (i + 1) input (y # rest))"
| "findRange_from i input _ = i - 1"

text \<open>
  Modelled from the spec: the index of the segment of \<open>interpolate\<close>, the loop started
  at index 1.
\<close>

definition findRange :: "real \<Rightarrow> real list \<Rightarrow> nat" where
  "findRange input inputRange = findRange_from 1 input (tl inputRange)"

text \<open>
  Modelled from the spec: the interpolation of \<open>interpolate\<close> on one segment. An input
  outside the segment is moved to its end where that side is clamped and left where it
  is otherwise; the result lies on the line through the two points.
\<close>

definition interpolateFunction ::
  "real \<Rightarrow> real \<times> real \<Rightarrow> real \<times> real \<Rightarrow> extrapolate \<Rightarrow> extrapolate \<Rightarrow> real" where
  "interpolateFunction input inputRange outputRange extrapolateLeft extrapolateRight =
     (let inputMin = fst inputRange; inputMax = snd inputRange;
          outputMin = fst outputRange; outputMax = snd outputRange;
          result1 = (if input < inputMin \<and> extrapolateLeft = Clamp then inputMin else input);
          result2 = (if result1 > inputMax \<and> extrapolateRight = Clamp then inputMax else result1)
      in if outputMin = outputMax then outputMin
         else (result2 - inputMin) / (inputMax - inputMin) * (outputMax - outputMin) + outputMin)"

text \<open>
  Modelled from the spec: \<open>interpolate\<close> of the \<open>remotion\<close> package, missing from the
  sources: the checks of the two ranges, then the interpolation on the bracketing
  segment.
\<close>

definition interpolate ::
  "real \<Rightarrow> real list \<Rightarrow> number list \<Rightarrow> extrapolate \<Rightarrow> extrapolate \<Rightarrow> error + real" where
  "interpolate input inputRange outputRange extrapolateLeft extrapolateRight =
     (if length inputRange \<noteq> length outputRange then Inl RangeLengthMismatch
      else if length inputRange < 2 then Inl RangeTooShort
      else case finite_values outputRange of
        None \<Rightarrow> Inl RangeNotFinite
      | Some outs \<Rightarrow>
          if \<not> checkValidInputRange inputRange then Inl InputRangeNotIncreasing
          else let range = findRange input inputRange
               in Inr (interpolateFunction input
                        (inputRange ! range, inputRange ! (range + 1))
                        (outs ! range, outs ! (range + 1))
                        extrapolateLeft extrapolateRight))"

section \<open>Strings\<close>

text \<open>
  Strings are lists of characters with codes below 256. \<open>is_word_char\<close> is the regular
  expression class \<open>\w\<close>, \<open>is_digit\<close> is \<open>\d\<close>, \<open>is_line_terminator\<close> holds of the
  characters that \<open>.\<close> does not match, and \<open>is_white_space\<close> of those that
  \<open>parseFloat\<close> skips at the start.
\<close>

definition is_digit :: "char \<Rightarrow> bool" where
  "is_digit c = (c \<in> set ''0123456789'')"

definition is_word_char :: "char \<Rightarrow> bool" where
  "is_word_char c =
     (c \<in> set ''abcdefghijklmnopqrstuvwxyzABCDEFGHIJKLMNOPQRSTUVWXYZ0123456789_'')"

definition is_line_terminator :: "char \<Rightarrow> bool" where
  "is_line_terminator c = (of_char c \<in> set [10, 13 :: nat])"

definition is_white_space :: "char \<Rightarrow> bool" where
  "is_white_space c = (of_char c \<in> set [9, 10, 11, 12, 13, 32, 160 :: nat])"

definition digit_value :: "char \<Rightarrow> nat" where
  "digit_value c = of_char c - 48"

definition nat_of_digits :: "string \<Rightarrow> nat" where
  "nat_of_digits ds = fold (\<lambda>c n. 10 * n + digit_value c) ds 0"

definition starts_with :: "string \<Rightarrow> string \<Rightarrow> bool" where
  "starts_with s sub = (take (length sub) s = sub)"

text \<open>\<open>string_includes s sub\<close> is \<open>s.includes(sub)\<close>: \<open>sub\<close> occurs somewhere in \<open>s\<close>.\<close>

primrec string_includes :: "string \<Rightarrow> string \<Rightarrow> bool" where
  "string_includes [] sub = (sub = [])"
| "string_includes (c # cs) sub = (starts_with (c # cs) sub \<or> string_includes cs sub)"

primrec join_with :: "string \<Rightarrow> string list \<Rightarrow> string" where
  "join_with sep [] = []"
| "join_with sep (x # xs) = (if xs = [] then x else x @ sep @ join_with sep xs)"

subsection \<open>parseFloat\<close>

text \<open>
  \<open>parseFloat\<close> skips leading white space and reads the longest prefix that is a decimal
  literal: a sign, then \<open>Infinity\<close> or digits with an optional fraction and an optional
  exponent. With no such prefix the result is \<open>NaN\<close>. The value is the exact decimal
  value (the rounding to a double is not modelled).
\<close>

definition parse_exponent :: "string \<Rightarrow> int" where
  "parse_exponent s =
     (case s of
        [] \<Rightarrow> 0
      | c # r \<Rightarrow>
          if c = CHR ''e'' \<or> c = CHR ''E'' then
            (let neg = starts_with r ''-'';
                 r' = (if starts_with r ''-'' \<or> starts_with r ''+'' then tl r else r);
                 ds = takeWhile is_digit r'
             in if ds = [] then 0
                else if neg then - int (nat_of_digits ds) else int (nat_of_digits ds))
          else 0)"

definition parseFloat :: "string \<Rightarrow> number" where
  "parseFloat s =
     (let t = dropWhile is_white_space s;
          neg = starts_with t ''-'';
          u = (if starts_with t ''-'' \<or> starts_with t ''+'' then tl t else t)
      in if starts_with u ''Infinity'' then (if neg then NegInfinity else PosInfinity)
         else
           (let ip = takeWhile is_digit u;
                r1 = dropWhile is_digit u;
                fp = (if starts_with r1 ''.'' then takeWhile is_digit (tl r1) else []);
                r2 = (if starts_with r1 ''.'' then dropWhile is_digit (tl r1) else r1)
            in if ip = [] \<and> fp = [] then NaN
               else
                 (let m = real (nat_of_digits ip) + real (nat_of_digits fp) / 10 ^ length fp;
                      e = parse_exponent r2;
                      v = (if e \<ge> 0 then m * 10 ^ nat e else m / 10 ^ nat (- e))
                  in Num (if neg then - v else v))))"

subsection \<open>Numbers as strings\<close>

text \<open>
  The string of a number, as a template literal and \<open>String\<close> produce it. Integers
  are printed exactly; a fraction is printed digit by digit, and cut after 17 digits
  where JavaScript would print the shortest digits that identify the double. The
  exponent notation of very large and very small numbers is not modelled.
\<close>

definition digit_char :: "nat \<Rightarrow> char" where
  "digit_char d = ''0123456789'' ! d"

fun string_of_nat :: "nat \<Rightarrow> string" where
  "string_of_nat n =
     (if n < 10 then [digit_char n] else string_of_nat (n div 10) @ [digit_char (n mod 10)])"

declare string_of_nat.simps [simp del]

fun frac_digits :: "nat \<Rightarrow> real \<Rightarrow> string" where
  "frac_digits 0 x = []"
| "frac_digits (Suc n) x =
     (if x = 0 then []
      else digit_char (nat \<lfloor>x * 10\<rfloor>) # frac_digits n (x * 10 - real (nat \<lfloor>x * 10\<rfloor>)))"

definition number_to_string :: "real \<Rightarrow> string" where
  "number_to_string x =
     (let a = \<bar>x\<bar>; ip = nat \<lfloor>a\<rfloor>; fr = a - real ip
      in (if x < 0 then ''-'' else []) @ string_of_nat ip
         @ (if fr = 0 then [] else ''.'' @ frac_digits 17 fr))"

section \<open>Transform strings\<close>

text \<open>
  \<open>match_term s\<close> matches the regular expression \<open>(\w+)\(([^)]+)\)\<close> at the start of
  \<open>s\<close> and returns the two groups and the rest of the string. Both repetitions are
  greedy, and giving characters back never helps here: the word must end where a \<open>(\<close>
  follows, and the argument must end where a \<open>)\<close> follows.
\<close>

definition match_term :: "string \<Rightarrow> (string \<times> string \<times> string) option" where
  "match_term s =
     (let func = takeWhile is_word_char s; r1 = dropWhile is_word_char s
      in if func = [] \<or> \<not> starts_with r1 ''('' then None
         else
           (let valStr = takeWhile (\<lambda>c. c \<noteq> CHR '')'') (tl r1);
                r2 = dropWhile (\<lambda>c. c \<noteq> CHR '')'') (tl r1)
            in if valStr = [] \<or> \<not> starts_with r2 '')'' then None
               else Some (func, valStr, tl r2)))"

text \<open>
  The \<open>while\<close> loop of \<open>parseTransform\<close>: \<open>regex.exec\<close> with the global flag finds the
  leftmost match from where the last one ended, so the scan tries each position in turn
  and goes on after a match.
\<close>

function regex_exec_all :: "string \<Rightarrow> (string \<times> string) list" where
  "regex_exec_all [] = []"
| "regex_exec_all (c # cs) =
     (case match_term (c # cs) of
        Some (func, valStr, rest) \<Rightarrow> (func, valStr) # regex_exec_all rest
      | None \<Rightarrow> regex_exec_all cs)"
  by pat_completeness auto
termination
proof -
  have shorter: "length rest < length s" if a: "match_term s = Some (func, valStr, rest)"
    for s func valStr rest
  proof -
    let ?r1 = "dropWhile is_word_char s"
    let ?r2 = "dropWhile (\<lambda>c. c \<noteq> CHR '')'') (tl ?r1)"
    from a have r: "rest = tl ?r2" and st: "starts_with ?r2 '')''"
      by (simp_all add: match_term_def Let_def split: if_splits)
    have "xs \<noteq> []" if "starts_with xs '')''" for xs
      using that by (auto simp: starts_with_def)
    from this [OF st] have ne: "?r2 \<noteq> []" .
    have "length ?r2 \<le> length (tl ?r1)" by (rule length_dropWhile_le)
    also have "\<dots> \<le> length ?r1" by simp
    also have "\<dots> \<le> length s" by (rule length_dropWhile_le)
    finally have "length ?r2 \<le> length s" .
    moreover from ne have "length (tl ?r2) < length ?r2" by (cases ?r2) auto
    ultimately show ?thesis using r by simp
  qed
  show ?thesis
    by (relation "measure length") (auto dest: shorter)
qed

text \<open>
  \<open>valStr.match(/(-?\d*\.?\d+)(.*)/)\<close>: the number is looked for at each position from
  the left. \<open>match_number_at\<close> is \<open>\d*\.?\d+\<close> at the start of a string: all the
  digits, then a point and more digits when a digit follows the point; otherwise the
  digits alone when there are any. The second group runs to the end of the line.
\<close>

definition match_number_at :: "string \<Rightarrow> (string \<times> string) option" where
  "match_number_at s =
     (let ds = takeWhile is_digit s; r = dropWhile is_digit s
      in if starts_with r ''.'' \<and> takeWhile is_digit (tl r) \<noteq> []
         then Some (ds @ ''.'' @ takeWhile is_digit (tl r), dropWhile is_digit (tl r))
         else if ds \<noteq> [] then Some (ds, r)
         else None)"

definition match_value_at :: "string \<Rightarrow> (string \<times> string) option" where
  "match_value_at s =
     (if starts_with s ''-'' then
        (case match_number_at (tl s) of
           Some (m, rest) \<Rightarrow> Some (CHR ''-'' # m, rest)
         | None \<Rightarrow> match_number_at s)
      else match_number_at s)"

fun match_value :: "string \<Rightarrow> (string \<times> string) option" where
  "match_value [] = None"
| "match_value (c # cs) =
     (case match_value_at (c # cs) of
        Some (m, rest) \<Rightarrow> Some (m, takeWhile (\<lambda>c. \<not> is_line_terminator c) rest)
      | None \<Rightarrow> match_value cs)"

section \<open>Keyframes and styles\<close>

text \<open>
  A style value is a number or a string, as \<open>React.CSSProperties\<close> has it, or \<open>null\<close>,
  which the storyboard's schema allows for every property. A JavaScript object is an
  association list with distinct keys, in the order the keys were added; a key that is
  absent reads as \<open>undefined\<close>. Keys that name a member of \<open>Object.prototype\<close> are
  outside the model.
\<close>

datatype cssval = VNum real | VStr string | VNull

type_synonym style = "(string \<times> cssval) list"

record AnimationKeyframe =
  kf_at :: real
  kf_style :: style

definition style_get :: "AnimationKeyframe \<Rightarrow> string \<Rightarrow> cssval option" where
  "style_get kf prop = map_of (kf_style kf) prop"

text \<open>\<open>String(v)\<close>, and whether \<open>v\<close> counts as true in a condition.\<close>

fun to_string :: "cssval \<Rightarrow> string" where
  "to_string (VStr s) = s"
| "to_string (VNum r) = number_to_string r"
| "to_string VNull = ''null''"

fun truthy :: "cssval \<Rightarrow> bool" where
  "truthy (VStr s) = (s \<noteq> [])"
| "truthy (VNum r) = (r \<noteq> 0)"
| "truthy VNull = False"

text \<open>
  \<open>Object.keys\<close> lists the keys that are array indices first, in ascending order, and
  then the other keys in the order they were added. \<open>set_add\<close> is \<open>Set.prototype.add\<close>
  on a set kept as the list of its members in insertion order.
\<close>

definition is_array_index :: "string \<Rightarrow> bool" where
  "is_array_index k =
     (k \<noteq> [] \<and> list_all is_digit k \<and> (k = ''0'' \<or> \<not> starts_with k ''0'')
      \<and> nat_of_digits k < 2 ^ 32 - 1)"

definition object_keys :: "(string \<times> 'a) list \<Rightarrow> string list" where
  "object_keys obj =
     (let ks = map fst obj
      in sort_key nat_of_digits (filter is_array_index ks)
         @ filter (\<lambda>k. \<not> is_array_index k) ks)"

definition set_add :: "string list \<Rightarrow> string \<Rightarrow> string list" where
  "set_add s x = (if x \<in> set s then s else s @ [x])"

subsection \<open>parseTransform\<close>

text \<open>
  The record \<open>parseTransform\<close> builds, from function name to value and unit. A missing,
  \<open>null\<close> or empty transform is caught by the first test; a number is turned into its
  string by \<open>regex.exec\<close>, and no parenthesis occurs there, so nothing matches.
\<close>

definition parseTransform :: "cssval option \<Rightarrow> (string \<times> number \<times> string) list" where
  "parseTransform transform =
     (case transform of
        Some (VStr s) \<Rightarrow>
          fold (\<lambda>(func, valStr) result.
                  case match_value valStr of
                    None \<Rightarrow> result
                  | Some (num, unit) \<Rightarrow> AList.update func (parseFloat num, unit) result)
               (regex_exec_all s) []
      | _ \<Rightarrow> [])"

subsection \<open>useAnimatedStyle\<close>

text \<open>
  \<open>parseFloat(String(kf.style.opacity ?? 1))\<close>. The string of a number parses back to
  the number; \<open>?? 1\<close> replaces \<open>null\<close> and \<open>undefined\<close> only.
\<close>

definition opacity_number :: "AnimationKeyframe \<Rightarrow> number" where
  "opacity_number kf =
     (case style_get kf ''opacity'' of
        None \<Rightarrow> Num 1
      | Some VNull \<Rightarrow> Num 1
      | Some (VNum r) \<Rightarrow> Num r
      | Some (VStr s) \<Rightarrow> parseFloat s)"

definition defaultValue :: "string \<Rightarrow> real" where
  "defaultValue func = (if string_includes func ''scale'' then 1 else 0)"

definition defaultUnit :: "string \<Rightarrow> string" where
  "defaultUnit func =
     (if string_includes func ''rotate'' then ''deg''
      else if string_includes func ''translate'' then ''px'' else '''')"

text \<open>
  One round of the loop over the sorted keyframes for one transform function. The state
  is \<open>lastValue\<close>, \<open>lastUnit\<close> (\<open>None\<close> for \<open>undefined\<close>) and the two ranges.
\<close>

definition channel_step ::
  "string \<Rightarrow> real \<Rightarrow> AnimationKeyframe
   \<Rightarrow> number option \<times> string option \<times> real list \<times> number list
   \<Rightarrow> number option \<times> string option \<times> real list \<times> number list" where
  "channel_step func duration kf st =
     (case st of (lastValue, lastUnit, funcInputRange, funcOutputRange) \<Rightarrow>
        let parsed = parseTransform (style_get kf ''transform'');
            lastUnit1 = (case lastUnit of None \<Rightarrow> defaultUnit func | Some u \<Rightarrow> u);
            lastUnit2 = (case map_of parsed func of
                           Some (v, u) \<Rightarrow> if lastUnit1 = defaultUnit func then u else lastUnit1
                         | None \<Rightarrow> lastUnit1);
            lastValue2 = (case map_of parsed func of
                            Some (v, u) \<Rightarrow> v
                          | None \<Rightarrow> (case lastValue of
                                       None \<Rightarrow> Num (defaultValue func)
                                     | Some v \<Rightarrow> v))
        in (Some lastValue2, Some lastUnit2,
            funcInputRange @ [kf_at kf * duration], funcOutputRange @ [lastValue2]))"

definition channel_scan ::
  "string \<Rightarrow> real \<Rightarrow> AnimationKeyframe list
   \<Rightarrow> number option \<times> string option \<times> real list \<times> number list" where
  "channel_scan func duration sortedKeyframes =
     fold (channel_step func duration) sortedKeyframes (None, None, [], [])"

definition transform_channel ::
  "real \<Rightarrow> real \<Rightarrow> AnimationKeyframe list \<Rightarrow> string \<Rightarrow> error + string list" where
  "transform_channel frame duration sortedKeyframes func =
     (case channel_scan func duration sortedKeyframes of
        (lastValue, lastUnit, funcInputRange, funcOutputRange) \<Rightarrow>
          if length funcInputRange > 1 then
            (case interpolate frame funcInputRange funcOutputRange Extend Extend of
               Inl e \<Rightarrow> Inl e
             | Inr interpolatedValue \<Rightarrow>
                 Inr [func @ ''('' @ number_to_string interpolatedValue
                      @ (case lastUnit of None \<Rightarrow> ''undefined'' | Some u \<Rightarrow> u) @ '')''])
          else Inr [])"

definition allFuncs :: "AnimationKeyframe list \<Rightarrow> string list" where
  "allFuncs keyframesForProp =
     fold (\<lambda>kf funcs.
             fold (\<lambda>key fs. set_add fs key)
                  (object_keys (parseTransform (style_get kf ''transform''))) funcs)
          keyframesForProp []"

fun transform_terms ::
  "real \<Rightarrow> real \<Rightarrow> AnimationKeyframe list \<Rightarrow> string list \<Rightarrow> error + string list" where
  "transform_terms frame duration sortedKeyframes [] = Inr []"
| "transform_terms frame duration sortedKeyframes (func # funcs) =
     (case transform_channel frame duration sortedKeyframes func of
        Inl e \<Rightarrow> Inl e
      | Inr t \<Rightarrow>
          (case transform_terms frame duration sortedKeyframes funcs of
             Inl e \<Rightarrow> Inl e
           | Inr ts \<Rightarrow> Inr (t @ ts)))"

text \<open>The step interpolation of the last branch.\<close>

definition step_value ::
  "real \<Rightarrow> real \<Rightarrow> string \<Rightarrow> AnimationKeyframe list \<Rightarrow> cssval option" where
  "step_value frame duration prop keyframesForProp =
     fold (\<lambda>kf currentStyleValue.
             if frame \<ge> kf_at kf * duration then style_get kf prop else currentStyleValue)
          keyframesForProp
          (case keyframesForProp of [] \<Rightarrow> None | kf # _ \<Rightarrow> style_get kf prop)"

text \<open>
  \<open>interpolateColors\<close> belongs to the library as well; no property proved here depends on
  what it computes, so it is a parameter of the model.
\<close>

type_synonym color_interpolator = "real \<Rightarrow> real list \<Rightarrow> string list \<Rightarrow> error + string"

text \<open>
  The body of \<open>properties.forEach\<close> for one property: the value to store under the
  property, \<open>None\<close> when nothing is stored, or the error thrown.
\<close>

definition resolve_property ::
  "color_interpolator \<Rightarrow> real \<Rightarrow> real \<Rightarrow> AnimationKeyframe list \<Rightarrow> string
   \<Rightarrow> error + cssval option" where
  "resolve_property interpolateColors frame duration sortedKeyframes prop =
     (let keyframesForProp = filter (\<lambda>kf. style_get kf prop \<noteq> None) sortedKeyframes
      in if length keyframesForProp = 0 then Inr None
         else if length keyframesForProp = 1 then Inr (style_get (keyframesForProp ! 0) prop)
         else
           (let inputRange = map (\<lambda>kf. kf_at kf * duration) keyframesForProp
            in if prop = ''opacity'' then
                 (case interpolate frame inputRange (map opacity_number keyframesForProp)
                         Clamp Clamp of
                    Inl e \<Rightarrow> Inl e
                  | Inr v \<Rightarrow> Inr (Some (VNum v)))
               else if prop = ''color'' \<or> prop = ''backgroundColor'' then
                 (case interpolateColors frame inputRange
                         (map (\<lambda>kf. case style_get kf prop of
                                       None \<Rightarrow> ''undefined''
                                     | Some v \<Rightarrow> to_string v) keyframesForProp) of
                    Inl e \<Rightarrow> Inl e
                  | Inr c \<Rightarrow> Inr (Some (VStr c)))
               else if prop = ''transform'' then
                 (case transform_terms frame duration sortedKeyframes
                         (allFuncs keyframesForProp) of
                    Inl e \<Rightarrow> Inl e
                  | Inr finalTransforms \<Rightarrow> Inr (Some (VStr (join_with '' '' finalTransforms))))
               else Inr (step_value frame duration prop keyframesForProp)))"

definition properties_of :: "AnimationKeyframe list \<Rightarrow> string list" where
  "properties_of sortedKeyframes =
     fold (\<lambda>kf props. fold (\<lambda>p ps. set_add ps p) (object_keys (kf_style kf)) props)
          sortedKeyframes []"

fun resolve_all ::
  "color_interpolator \<Rightarrow> real \<Rightarrow> real \<Rightarrow> AnimationKeyframe list \<Rightarrow> string list \<Rightarrow> style
   \<Rightarrow> error + style" where
  "resolve_all interpolateColors frame duration sortedKeyframes [] finalStyle = Inr finalStyle"
| "resolve_all interpolateColors frame duration sortedKeyframes (prop # props) finalStyle =
     (case resolve_property interpolateColors frame duration sortedKeyframes prop of
        Inl e \<Rightarrow> Inl e
      | Inr None \<Rightarrow>
          resolve_all interpolateColors frame duration sortedKeyframes props finalStyle
      | Inr (Some v) \<Rightarrow>
          resolve_all interpolateColors frame duration sortedKeyframes props
            (AList.update prop v finalStyle))"

text \<open>
  \<open>useAnimatedStyle\<close>, with the frame of \<open>useCurrentFrame\<close> as an argument. The sort of
  JavaScript is stable, as \<open>sort_key\<close> is.
\<close>

definition useAnimatedStyle ::
  "color_interpolator \<Rightarrow> AnimationKeyframe list option \<Rightarrow> real \<Rightarrow> real \<Rightarrow> error + style" where
  "useAnimatedStyle interpolateColors keyframes duration frame =
     (case keyframes of
        None \<Rightarrow> Inr []
      | Some kfs \<Rightarrow>
          if length kfs < 1 then Inr []
          else
            (let sortedKeyframes = sort_key kf_at kfs
             in resolve_all interpolateColors frame duration sortedKeyframes
                  (properties_of sortedKeyframes) []))"

section \<open>Elements\<close>

datatype element_type = Shape | Text

datatype ShapeType = Rectangle | Circle

record AnimationElement =
  el_id :: string
  el_type :: element_type
  el_shape :: "ShapeType option"
  el_text :: "string option"
  el_keyframes :: "AnimationKeyframe list"

definition baseStyle_of :: "AnimationElement \<Rightarrow> style" where
  "baseStyle_of element =
     (let base = [(''position'', VStr ''absolute''), (''display'', VStr ''flex''),
                  (''alignItems'', VStr ''center''), (''justifyContent'', VStr ''center''),
                  (''top'', VStr ''50%''), (''left'', VStr ''50%''),
                  (''transform'', VStr ''translate(-50%, -50%)'')];
          base1 = (if el_type element = Shape \<and> el_shape element = Some Circle
                   then AList.update ''borderRadius'' (VStr ''50%'') base else base)
      in if el_type element = Text
         then fold (\<lambda>(k, v). AList.update k v)
                [(''textAlign'', VStr ''center''),
                 (''fontSize'', VStr ''clamp(1rem, 5vw, 3.5rem)''),
                 (''fontWeight'', VNum 700), (''lineHeight'', VStr ''1.2''),
                 (''color'', VStr ''white'')] base1
         else base1)"

text \<open>\<open>spread a b\<close> is the object \<open>{...a, ...b}\<close>.\<close>

definition spread :: "style \<Rightarrow> style \<Rightarrow> style" where
  "spread a b = fold (\<lambda>(k, v). AList.update k v) b a"

record rendered_element =
  re_style :: style
  re_text :: "string option"

definition AnimatedElement ::
  "color_interpolator \<Rightarrow> AnimationElement \<Rightarrow> real \<Rightarrow> real \<Rightarrow> error + rendered_element" where
  "AnimatedElement interpolateColors element sceneDuration frame =
     (case useAnimatedStyle interpolateColors (Some (el_keyframes element)) sceneDuration frame of
        Inl e \<Rightarrow> Inl e
      | Inr animatedStyle \<Rightarrow>
          (let baseStyle = baseStyle_of element;
               finalStyle = spread baseStyle animatedStyle;
               finalStyle1 =
                 (case (map_of baseStyle ''transform'', map_of animatedStyle ''transform'') of
                    (Some b, Some a) \<Rightarrow>
                      if truthy b \<and> truthy a
                      then AList.update ''transform'' (VStr (to_string b @ '' '' @ to_string a))
                             finalStyle
                      else finalStyle
                  | _ \<Rightarrow> finalStyle)
           in Inr \<lparr>re_style = finalStyle1,
                   re_text = (if el_type element = Text then el_text element else None)\<rparr>))"

section \<open>Scenes\<close>

text \<open>
  The opacity computed by \<open>SceneComponent\<close> from its props and the frame that
  \<open>useCurrentFrame\<close> reports, which inside a \<open>Sequence\<close> is the scene's local frame.
\<close>

definition scene_opacity :: "bool \<Rightarrow> bool \<Rightarrow> real \<Rightarrow> real \<Rightarrow> real \<Rightarrow> error + real" where
  "scene_opacity isFirst isLast sceneDuration transitionDuration frame =
     (if isFirst \<and> isLast then Inr 1
      else if isFirst then
        interpolate frame [sceneDuration, sceneDuration + transitionDuration] [Num 1, Num 0] Clamp Clamp
      else if isLast then
        interpolate frame [0, transitionDuration] [Num 0, Num 1] Clamp Clamp
      else
        (case interpolate frame [0, transitionDuration] [Num 0, Num 1] Extend Clamp of
           Inl e \<Rightarrow> Inl e
         | Inr fadeIn \<Rightarrow>
            (case interpolate frame [sceneDuration, sceneDuration + transitionDuration]
                    [Num 1, Num 0] Clamp Extend of
               Inl e \<Rightarrow> Inl e
             | Inr fadeOut \<Rightarrow> Inr (min fadeIn fadeOut))))"

text \<open>
  The quotient of two finite numbers in JavaScript: a number, or \<open>NaN\<close> or an infinity
  when the divisor is zero.
\<close>

definition js_divide :: "real \<Rightarrow> real \<Rightarrow> number" where
  "js_divide a b =
     (if b \<noteq> 0 then Num (a / b)
      else if a = 0 then NaN else if a > 0 then PosInfinity else NegInfinity)"

definition getKenBurnsEffect :: "real \<Rightarrow> real \<Rightarrow> nat \<Rightarrow> error + string" where
  "getKenBurnsEffect frame duration index =
     (case js_divide frame duration of
        Num progress \<Rightarrow>
          (let isEven = (index mod 2 = 0)
           in case interpolate progress [0, 1]
                     (if isEven then [Num 1, Num 1.1] else [Num 1.1, Num 1]) Extend Extend of
                Inl e \<Rightarrow> Inl e
              | Inr scaleValue \<Rightarrow>
                  (case interpolate progress [0, 1]
                          (if isEven then [Num (- 1), Num 1] else [Num 1, Num (- 1)])
                          Extend Extend of
                     Inl e \<Rightarrow> Inl e
                   | Inr rotateValue \<Rightarrow>
                       Inr (''scale('' @ number_to_string scaleValue @ '') rotate(''
                            @ number_to_string rotateValue @ ''deg)'')))
      | _ \<Rightarrow> Inl NonFiniteInput)"

record Scene =
  animationElements :: "AnimationElement list"
  cameraAnimation :: "AnimationKeyframe list option"
  imageUrl :: "string option"
  backgroundColor :: "string option"

record rendered_scene =
  rs_key :: nat
  rs_opacity :: real
  rs_backgroundColor :: string
  rs_image :: "(string \<times> string) option"
  rs_background :: string
  rs_cameraStyle :: style
  rs_elements :: "rendered_element list"

fun render_elements ::
  "color_interpolator \<Rightarrow> AnimationElement list \<Rightarrow> real \<Rightarrow> real
   \<Rightarrow> error + rendered_element list" where
  "render_elements interpolateColors [] sceneDuration frame = Inr []"
| "render_elements interpolateColors (el # els) sceneDuration frame =
     (case AnimatedElement interpolateColors el sceneDuration frame of
        Inl e \<Rightarrow> Inl e
      | Inr r \<Rightarrow>
          (case render_elements interpolateColors els sceneDuration frame of
             Inl e \<Rightarrow> Inl e
           | Inr rs \<Rightarrow> Inr (r # rs)))"

text \<open>
  \<open>SceneComponent\<close>. The two hooks are arguments: \<open>frame\<close> is what \<open>useCurrentFrame\<close>
  returns and \<open>durationInFrames\<close> what \<open>useVideoConfig\<close> reports. The image is rendered
  only for a non-empty \<open>imageUrl\<close>, as a pair of its source and its transform.
\<close>

definition SceneComponent ::
  "color_interpolator \<Rightarrow> Scene \<Rightarrow> bool \<Rightarrow> bool \<Rightarrow> real \<Rightarrow> real \<Rightarrow> nat \<Rightarrow> real \<Rightarrow> real
   \<Rightarrow> error + rendered_scene" where
  "SceneComponent interpolateColors scene isFirst isLast sceneDuration transitionDuration
       index frame durationInFrames =
     (case scene_opacity isFirst isLast sceneDuration transitionDuration frame of
        Inl e \<Rightarrow> Inl e
      | Inr opacity \<Rightarrow>
     (case getKenBurnsEffect frame durationInFrames index of
        Inl e \<Rightarrow> Inl e
      | Inr imageTransforms \<Rightarrow>
     (case useAnimatedStyle interpolateColors (cameraAnimation scene) sceneDuration frame of
        Inl e \<Rightarrow> Inl e
      | Inr cameraStyle \<Rightarrow>
     (case render_elements interpolateColors (animationElements scene) sceneDuration frame of
        Inl e \<Rightarrow> Inl e
      | Inr els \<Rightarrow>
          (let hasImage = (case imageUrl scene of None \<Rightarrow> False | Some u \<Rightarrow> u \<noteq> [])
           in Inr \<lparr>rs_key = index,
                   rs_opacity = opacity,
                   rs_backgroundColor =
                     (case backgroundColor scene of
                        None \<Rightarrow> ''transparent''
                      | Some c \<Rightarrow> if c \<noteq> [] then c else ''transparent''),
                   rs_image =
                     (case imageUrl scene of
                        None \<Rightarrow> None
                      | Some u \<Rightarrow> if u \<noteq> [] then Some (u, imageTransforms) else None),
                   rs_background =
                     (if hasImage
                      then ''linear-gradient(to top, rgba(0,0,0,0.4) 0%, transparent 50%)''
                      else ''none''),
                   rs_cameraStyle = cameraStyle,
                   rs_elements = els\<rparr>)))))"

section \<open>The composition\<close>

datatype AspectRatio = Ratio_16_9 | Ratio_9_16 | Ratio_1_1

record VideoResult =
  scenes :: "Scene list option"
  narration :: "string list option"
  aspectRatio :: AspectRatio
  textColor :: string
  transparentBackground :: bool
  vr_backgroundColor :: "string option"

definition DURATION_PER_SCENE :: real where
  "DURATION_PER_SCENE = 90"

definition TRANSITION_DURATION :: real where
  "TRANSITION_DURATION = 30"

text \<open>
  What \<open>Animation\<close> draws at a frame of the master timeline: the placeholder with its
  style and message, or the black fill with the scenes that are on screen.
\<close>

datatype frame_output =
    Placeholder style string
  | Composition style "rendered_scene list"

definition finalScene_of :: "string option \<Rightarrow> Scene \<Rightarrow> Scene" where
  "finalScene_of bg scene =
     scene\<lparr>backgroundColor :=
       (if (case imageUrl scene of None \<Rightarrow> True | Some u \<Rightarrow> u = [])
           \<and> (case bg of None \<Rightarrow> False | Some c \<Rightarrow> c \<noteq> [])
        then bg else backgroundColor scene)\<rparr>"

text \<open>
  Modelled from the spec: \<open>Sequence\<close> and \<open>useCurrentFrame\<close> belong to the library.
  Scene \<open>i\<close> occupies the window from \<open>i * sceneDuration\<close>, of
  \<open>sceneDuration + transitionDuration\<close> frames, and inside it the frame counts from 0
  at the start of the window. Outside its window a scene is not rendered.
\<close>

fun render_sequences ::
  "color_interpolator \<Rightarrow> real \<Rightarrow> string option \<Rightarrow> nat \<Rightarrow> real \<Rightarrow> (nat \<times> Scene) list
   \<Rightarrow> error + rendered_scene list" where
  "render_sequences interpolateColors durationInFrames bg n frame [] = Inr []"
| "render_sequences interpolateColors durationInFrames bg n frame ((index, scene) # rest) =
     (let start = real index * DURATION_PER_SCENE
      in if start \<le> frame \<and> frame < start + (DURATION_PER_SCENE + TRANSITION_DURATION) then
           (case SceneComponent interpolateColors (finalScene_of bg scene)
                   (index = 0) (index = n - 1) DURATION_PER_SCENE TRANSITION_DURATION
                   index (frame - start) durationInFrames of
              Inl e \<Rightarrow> Inl e
            | Inr r \<Rightarrow>
                (case render_sequences interpolateColors durationInFrames bg n frame rest of
                   Inl e \<Rightarrow> Inl e
                 | Inr rs \<Rightarrow> Inr (r # rs)))
         else render_sequences interpolateColors durationInFrames bg n frame rest)"

definition Animation ::
  "color_interpolator \<Rightarrow> real \<Rightarrow> VideoResult \<Rightarrow> real \<Rightarrow> error + frame_output" where
  "Animation interpolateColors durationInFrames videoResult frame =
     (case scenes videoResult of
        None \<Rightarrow>
          Inr (Placeholder
                 [(''backgroundColor'', VStr ''black''), (''justifyContent'', VStr ''center''),
                  (''alignItems'', VStr ''center''), (''color'', VStr ''white''),
                  (''fontSize'', VNum 24)]
                 ''Animation data is missing or invalid.'')
      | Some ss \<Rightarrow>
          if length ss = 0 then
            Inr (Placeholder
                   [(''backgroundColor'', VStr ''black''), (''justifyContent'', VStr ''center''),
                    (''alignItems'', VStr ''center''), (''color'', VStr ''white''),
                    (''fontSize'', VNum 24)]
                   ''Animation data is missing or invalid.'')
          else
            (case render_sequences interpolateColors durationInFrames
                    (vr_backgroundColor videoResult) (length ss) frame (enumerate 0 ss) of
               Inl e \<Rightarrow> Inl e
             | Inr rs \<Rightarrow> Inr (Composition [(''backgroundColor'', VStr ''black'')] rs)))"

section \<open>Inputs of the specification's examples\<close>

text \<open>A colour interpolator for inputs that have no colour property.\<close>

definition no_colors :: color_interpolator where
  "no_colors frame inputRange outputRange = Inl (ColorError ''not used'')"

definition opacity_example :: "AnimationKeyframe list" where
  "opacity_example =
     [\<lparr>kf_at = 0.2, kf_style = [(''opacity'', VNum 0)]\<rparr>,
      \<lparr>kf_at = 0.8, kf_style = [(''opacity'', VNum 1)]\<rparr>]"


definition transform_example :: "AnimationKeyframe list" where
  "transform_example =
     [\<lparr>kf_at = 0, kf_style = [(''transform'', VStr ''translateX(0px) scale(1)'')]\<rparr>,
      \<lparr>kf_at = 1, kf_style = [(''transform'', VStr ''translateX(100px)'')]\<rparr>]"



definition bad_opacity_example :: "AnimationKeyframe list" where
  "bad_opacity_example =
     [\<lparr>kf_at = 0, kf_style = [(''opacity'', VStr ''abc'')]\<rparr>,
      \<lparr>kf_at = 1, kf_style = [(''opacity'', VNum 1)]\<rparr>]"

definition image_scene :: Scene where
  "image_scene =
     \<lparr>animationElements = [], cameraAnimation = None, imageUrl = Some ''bg.png'',
      backgroundColor = None\<rparr>"

definition three_scenes :: VideoResult where
  "three_scenes =
     \<lparr>scenes = Some [image_scene, image_scene, image_scene], narration = None,
      aspectRatio = Ratio_16_9, textColor = ''#FFFFFF'', transparentBackground = False,
      vr_backgroundColor = None\<rparr>"

definition no_scenes :: VideoResult where
  "no_scenes = three_scenes\<lparr>scenes := Some []\<rparr>"

text \<open>The scene drawn under a given key in a frame, if there is one.\<close>

definition rendered_scene_at :: "error + frame_output \<Rightarrow> nat \<Rightarrow> rendered_scene option" where
  "rendered_scene_at out index =
     (case out of
        Inr (Composition st rs) \<Rightarrow> find (\<lambda>r. rs_key r = index) rs
      | _ \<Rightarrow> None)"

text \<open>
  Keyframes stored out of order: the opacity example with a keyframe between the two that
  has no opacity, the transform example, and the transform example with a keyframe between
  the two that has no transform.
\<close>

definition opacity_example_unsorted :: "AnimationKeyframe list" where
  "opacity_example_unsorted =
     [\<lparr>kf_at = 0.8, kf_style = [(''opacity'', VNum 1)]\<rparr>,
      \<lparr>kf_at = 0.5, kf_style = [(''width'', VStr ''10px'')]\<rparr>,
      \<lparr>kf_at = 0.2, kf_style = [(''opacity'', VNum 0)]\<rparr>]"

definition transform_example_unsorted :: "AnimationKeyframe list" where
  "transform_example_unsorted =
     [\<lparr>kf_at = 1, kf_style = [(''transform'', VStr ''translateX(100px)'')]\<rparr>,
      \<lparr>kf_at = 0, kf_style = [(''transform'', VStr ''translateX(0px) scale(1)'')]\<rparr>]"

definition transform_example_held :: "AnimationKeyframe list" where
  "transform_example_held =
     [\<lparr>kf_at = 1, kf_style = [(''transform'', VStr ''translateX(100px)'')]\<rparr>,
      \<lparr>kf_at = 0.5, kf_style = [(''opacity'', VNum 1)]\<rparr>,
      \<lparr>kf_at = 0, kf_style = [(''transform'', VStr ''translateX(0px) scale(1)'')]\<rparr>]"

section \<open>The carry-forward rule in the specification's words\<close>

text \<open>
  The value and the unit that one keyframe gives to a transform function, if it names
  the function.
\<close>

definition channel_value :: "AnimationKeyframe \<Rightarrow> string \<Rightarrow> number option" where
  "channel_value kf func = map_option fst (map_of (parseTransform (style_get kf ''transform'')) func)"

definition channel_unit :: "AnimationKeyframe \<Rightarrow> string \<Rightarrow> string option" where
  "channel_unit kf func = map_option snd (map_of (parseTransform (style_get kf ''transform'')) func)"

text \<open>
  \<open>carry_forward\<close> scans the keyframes in order: a keyframe that defines the channel
  gives its value, one that omits it keeps the last known value, which is the default
  before the first definition.
\<close>

fun carry_forward :: "'a \<Rightarrow> 'a option list \<Rightarrow> 'a list" where
  "carry_forward known [] = []"
| "carry_forward known (None # xs) = known # carry_forward known xs"
| "carry_forward known (Some v # xs) = v # carry_forward v xs"

text \<open>
  The unit a channel is printed with: the first unit written for it that differs from
  the default unit, and the default unit when there is none.
\<close>

definition printed_unit :: "string \<Rightarrow> AnimationKeyframe list \<Rightarrow> string" where
  "printed_unit func kfs =
     (case find (\<lambda>u. u \<noteq> defaultUnit func) (List.map_filter (\<lambda>kf. channel_unit kf func) kfs) of
        None \<Rightarrow> defaultUnit func
      | Some u \<Rightarrow> u)"

text \<open>
  The background effect as a function of a progress \<open>p\<close> and the parity of the scene:
  an even scene scales from 1 to 1.1 and rotates from -1 to 1 degree as \<open>p\<close> goes from 0
  to 1, an odd scene the other way round.
\<close>

definition ken_burns_of_progress :: "real \<Rightarrow> nat \<Rightarrow> string" where
  "ken_burns_of_progress p index =
     (if even index
      then ''scale('' @ number_to_string (1 + 0.1 * p) @ '') rotate(''
           @ number_to_string (- 1 + 2 * p) @ ''deg)''
      else ''scale('' @ number_to_string (1.1 - 0.1 * p) @ '') rotate(''
           @ number_to_string (1 - 2 * p) @ ''deg)'')"

text \<open>
  The values of a channel over a sequence of keyframes, as real numbers: the
  carry-forward of the values written for it, from its default.
\<close>

fun the_num :: "number \<Rightarrow> real" where
  "the_num (Num r) = r"
| "the_num _ = 0"

definition channel_values :: "string \<Rightarrow> AnimationKeyframe list \<Rightarrow> real list" where
  "channel_values func kfs =
     map the_num
       (carry_forward (Num (defaultValue func)) (map (\<lambda>kf. channel_value kf func) kfs))"

text \<open>
  The names of the transform functions written in a sequence of keyframes, each once, in
  the order in which they are first met.
\<close>

definition channels_in_order :: "AnimationKeyframe list \<Rightarrow> string list" where
  "channels_in_order kfs =
     rev (remdups (rev (concat
       (map (\<lambda>kf. object_keys (parseTransform (style_get kf ''transform''))) kfs))))"

text \<open>The opacity stored in a keyframe, when it is a number.\<close>

definition stored_opacity :: "AnimationKeyframe \<Rightarrow> real" where
  "stored_opacity kf = (case style_get kf ''opacity'' of Some (VNum r) \<Rightarrow> r | _ \<Rightarrow> 0)"

section \<open>Properties of the interpolation primitive\<close>

lemma checkValidInputRange_iff: "checkValidInputRange xs \<longleftrightarrow> sorted_wrt (<) xs"
  by (induction xs rule: checkValidInputRange.induct) fastforce+

lemma finite_values_map_Num: "finite_values (map Num vs) = Some vs"
  by (induction vs) auto

lemma finite_values_Some: "finite_values ns = Some vs \<Longrightarrow> ns = map Num vs"
  by (induction ns arbitrary: vs rule: finite_values.induct) auto

lemma findRange_from_steps:
  "1 \<le> i \<Longrightarrow> \<exists>k. findRange_from i input ys = i - 1 + k
       \<and> (ys = [] \<longrightarrow> k = 0) \<and> (ys \<noteq> [] \<longrightarrow> k < length ys)
       \<and> (\<forall>j<k. ys ! j < input)
       \<and> (k + 1 < length ys \<longrightarrow> input \<le> ys ! k)"
proof (induction i input ys rule: findRange_from.induct)
  case (1 i input x y rest)
  show ?case
  proof (cases "x \<ge> input")
    case True
    then show ?thesis by (intro exI [of _ 0]) simp
  next
    case False
    with 1 obtain k where k: "findRange_from (i + 1) input (y # rest) = i + k"
      "k < length (y # rest)" "\<forall>j<k. (y # rest) ! j < input"
      "k + 1 < length (y # rest) \<longrightarrow> input \<le> (y # rest) ! k"
      by auto
    show ?thesis
    proof (intro exI [of _ "Suc k"] conjI)
      show "findRange_from i input (x # y # rest) = i - 1 + Suc k"
        using False k(1) \<open>1 \<le> i\<close> by simp
      show "\<forall>j<Suc k. (x # y # rest) ! j < input"
        using False k(3) by (auto simp: less_Suc_eq_0_disj)
    qed (use k in auto)
  qed
qed auto

lemma findRange_props:
  assumes "2 \<le> length xs"
  shows "findRange input xs + 1 < length xs"
    and "0 < findRange input xs \<Longrightarrow> xs ! findRange input xs < input"
    and "findRange input xs + 2 < length xs \<Longrightarrow> input \<le> xs ! (findRange input xs + 1)"
proof -
  obtain k where k: "findRange input xs = k" "tl xs \<noteq> [] \<longrightarrow> k < length (tl xs)"
    "\<forall>j<k. tl xs ! j < input" "k + 1 < length (tl xs) \<longrightarrow> input \<le> tl xs ! k"
    using findRange_from_steps [of 1 input "tl xs"] by (auto simp: findRange_def)
  from assms have ne: "tl xs \<noteq> []" by (cases xs; cases "tl xs") auto
  have nth: "tl xs ! j = xs ! Suc j" if "Suc j < length xs" for j
    using that by (cases xs) auto
  show "findRange input xs + 1 < length xs" using k(1,2) ne by simp
  show "xs ! findRange input xs < input" if "0 < findRange input xs"
  proof -
    from that k(1) obtain j where j: "k = Suc j" by (cases k) auto
    with k(3) have "tl xs ! j < input" by simp
    moreover have "Suc j < length xs" using k(2) ne j by simp
    ultimately show ?thesis using nth k(1) j by simp
  qed
  show "input \<le> xs ! (findRange input xs + 1)" if "findRange input xs + 2 < length xs"
    using that k(1,4) nth [of k] by simp
qed

lemma interpolateFunction_inside:
  "a < b \<Longrightarrow> a \<le> t \<Longrightarrow> t \<le> b \<Longrightarrow>
   interpolateFunction t (a, b) (u, v) l r = u + (t - a) * (v - u) / (b - a)"
  by (simp add: interpolateFunction_def Let_def)

lemma interpolate_checked:
  assumes "sorted_wrt (<) xs" "length xs = length vs" "2 \<le> length xs"
  shows "interpolate t xs (map Num vs) l r =
     Inr (interpolateFunction t (xs ! findRange t xs, xs ! (findRange t xs + 1))
            (vs ! findRange t xs, vs ! (findRange t xs + 1)) l r)"
  using assms by (simp add: interpolate_def finite_values_map_Num checkValidInputRange_iff Let_def)

lemma interpolate_segment:
  assumes s: "sorted_wrt (<) xs" and len: "length xs = length vs"
    and k: "k + 1 < length xs" and lo: "xs ! k \<le> t" and hi: "t \<le> xs ! (k + 1)"
  shows "interpolate t xs (map Num vs) l r =
     Inr (vs ! k + (t - xs ! k) * (vs ! (k + 1) - vs ! k) / (xs ! (k + 1) - xs ! k))"
proof -
  define j where "j = findRange t xs"
  from k have n2: "2 \<le> length xs" by simp
  note fr = findRange_props [OF n2, of t, folded j_def]
  have ic: "interpolate t xs (map Num vs) l r =
      Inr (interpolateFunction t (xs ! j, xs ! (j + 1)) (vs ! j, vs ! (j + 1)) l r)"
    unfolding j_def by (rule interpolate_checked [OF s len n2])
  have mono: "xs ! a < xs ! b" if "a < b" "b < length xs" for a b
    using s that by (simp add: sorted_wrt_iff_nth_less)
  have mono_le: "xs ! a \<le> xs ! b" if "a \<le> b" "b < length xs" for a b
    using mono [of a b] that by (cases "a = b") auto
  have not_gt: "\<not> k < j"
  proof
    assume a: "k < j"
    then have "xs ! j < t" using fr(2) by simp
    moreover have "xs ! (k + 1) \<le> xs ! j" using a fr(1) by (intro mono_le) auto
    ultimately show False using hi by simp
  qed
  consider "j = k" | "j < k" using not_gt by (cases "j = k") auto
  then show ?thesis
  proof cases
    case 1
    have lt: "xs ! k < xs ! (k + 1)" using k by (intro mono) auto
    show ?thesis unfolding ic 1 interpolateFunction_inside [OF lt lo hi] ..
  next
    case 2
    then have "j + 2 < length xs" using k by simp
    then have "t \<le> xs ! (j + 1)" by (rule fr(3))
    moreover have "xs ! (j + 1) \<le> xs ! k" using 2 k by (intro mono_le) auto
    ultimately have tk: "t = xs ! k" and eq: "xs ! (j + 1) = xs ! k" using lo by auto
    have rk: "j + 1 = k"
    proof (rule ccontr)
      assume "j + 1 \<noteq> k"
      with 2 have "j + 1 < k" by simp
      from mono [OF this] k eq show False by simp
    qed
    have lt: "xs ! j < xs ! (j + 1)" using fr(1) by (intro mono) auto
    have le: "xs ! j \<le> t" using lt tk rk by simp
    have ge: "t \<le> xs ! (j + 1)" using tk rk by simp
    have "vs ! j + (t - xs ! j) * (vs ! (j + 1) - vs ! j) / (xs ! (j + 1) - xs ! j) = vs ! k"
      using lt tk rk by auto
    moreover have "vs ! k + (t - xs ! k) * (vs ! (k + 1) - vs ! k) / (xs ! (k + 1) - xs ! k) = vs ! k"
      using tk by simp
    ultimately show ?thesis
      unfolding ic interpolateFunction_inside [OF lt le ge] by simp
  qed
qed

lemma interpolate_left:
  assumes s: "sorted_wrt (<) xs" and len: "length xs = length vs"
    and n2: "2 \<le> length xs" and lo: "t \<le> xs ! 0"
  shows "interpolate t xs (map Num vs) Clamp r = Inr (vs ! 0)"
    and "interpolate t xs (map Num vs) Extend r =
           Inr (if vs ! 0 = vs ! 1 then vs ! 0
                else (t - xs ! 0) / (xs ! 1 - xs ! 0) * (vs ! 1 - vs ! 0) + vs ! 0)"
proof -
  let ?r = "findRange t xs"
  note fr = findRange_props [OF n2, of t]
  have mono: "xs ! i < xs ! j" if "i < j" "j < length xs" for i j
    using s that by (simp add: sorted_wrt_iff_nth_less)
  have r0: "?r = 0"
  proof (rule ccontr)
    assume "?r \<noteq> 0"
    then have a: "0 < ?r" by simp
    then have "xs ! ?r < t" by (rule fr(2))
    moreover have "xs ! 0 < xs ! ?r" using a fr(1) by (intro mono) auto
    ultimately show False using lo by simp
  qed
  have lt: "xs ! 0 < xs ! 1" using n2 by (intro mono) auto
  show "interpolate t xs (map Num vs) Clamp r = Inr (vs ! 0)"
    using lt lo by (simp add: interpolate_checked [OF s len n2] r0 interpolateFunction_def Let_def)
  show "interpolate t xs (map Num vs) Extend r =
           Inr (if vs ! 0 = vs ! 1 then vs ! 0
                else (t - xs ! 0) / (xs ! 1 - xs ! 0) * (vs ! 1 - vs ! 0) + vs ! 0)"
    using lt lo by (simp add: interpolate_checked [OF s len n2] r0 interpolateFunction_def Let_def)
qed

lemma interpolate_right:
  assumes s: "sorted_wrt (<) xs" and len: "length xs = length vs"
    and n: "length xs = Suc (Suc m)" and hi: "xs ! Suc m \<le> t"
  shows "interpolate t xs (map Num vs) l Clamp = Inr (vs ! Suc m)"
    and "interpolate t xs (map Num vs) l Extend =
           Inr (if vs ! m = vs ! Suc m then vs ! m
                else (t - xs ! m) / (xs ! Suc m - xs ! m) * (vs ! Suc m - vs ! m) + vs ! m)"
proof -
  define j where "j = findRange t xs"
  from n have n2: "2 \<le> length xs" by simp
  note fr = findRange_props [OF n2, of t, folded j_def]
  have ic: "interpolate t xs (map Num vs) l r =
      Inr (interpolateFunction t (xs ! j, xs ! (j + 1)) (vs ! j, vs ! (j + 1)) l r)" for r
    unfolding j_def by (rule interpolate_checked [OF s len n2])
  have mono: "xs ! a < xs ! b" if "a < b" "b < length xs" for a b
    using s that by (simp add: sorted_wrt_iff_nth_less)
  have rn: "j = m"
  proof (rule ccontr)
    assume "j \<noteq> m"
    then have a: "j + 2 < length xs" using fr(1) n by simp
    then have "t \<le> xs ! (j + 1)" by (rule fr(3))
    moreover have "xs ! (j + 1) < xs ! Suc m" using a n by (intro mono) auto
    ultimately show False using hi by simp
  qed
  have lt: "xs ! m < xs ! Suc m" using n by (intro mono) auto
  show "interpolate t xs (map Num vs) l Clamp = Inr (vs ! Suc m)"
    using lt hi by (auto simp: ic rn interpolateFunction_def Let_def)
  show "interpolate t xs (map Num vs) l Extend =
           Inr (if vs ! m = vs ! Suc m then vs ! m
                else (t - xs ! m) / (xs ! Suc m - xs ! m) * (vs ! Suc m - vs ! m) + vs ! m)"
    using lt hi by (auto simp: ic rn interpolateFunction_def Let_def)
qed

section \<open>Properties of the style resolver\<close>

lemma set_add_fold_set: "set (fold (\<lambda>p ps. set_add ps p) xs ps) = set ps \<union> set xs"
  by (induction xs arbitrary: ps) (auto simp: set_add_def)

lemma set_add_fold_distinct: "distinct ps \<Longrightarrow> distinct (fold (\<lambda>p ps. set_add ps p) xs ps)"
  by (induction xs arbitrary: ps) (auto simp: set_add_def)

lemma set_object_keys: "set (object_keys obj) = fst ` set obj"
  by (auto simp: object_keys_def Let_def)

lemma properties_of_gen:
  "set (fold (\<lambda>kf props. fold (\<lambda>p ps. set_add ps p) (object_keys (kf_style kf)) props) kfs ps)
     = set ps \<union> (\<Union>kf\<in>set kfs. fst ` set (kf_style kf))"
  by (induction kfs arbitrary: ps) (auto simp: set_add_fold_set set_object_keys)

lemma properties_of_distinct_gen:
  "distinct ps \<Longrightarrow>
   distinct (fold (\<lambda>kf props. fold (\<lambda>p ps. set_add ps p) (object_keys (kf_style kf)) props) kfs ps)"
  by (induction kfs arbitrary: ps) (auto simp: set_add_fold_distinct)

lemma set_properties_of: "set (properties_of kfs) = (\<Union>kf\<in>set kfs. fst ` set (kf_style kf))"
  by (simp add: properties_of_def properties_of_gen)

lemma distinct_properties_of: "distinct (properties_of kfs)"
  by (simp add: properties_of_def properties_of_distinct_gen)

lemma style_get_defined: "style_get kf p \<noteq> None \<longleftrightarrow> p \<in> fst ` set (kf_style kf)"
  by (simp add: style_get_def map_of_eq_None_iff)

lemma resolve_all_lookup:
  assumes "resolve_all ic f d sk props st0 = Inr st" "distinct props"
  shows "if p \<in> set props
         then (\<exists>r. resolve_property ic f d sk p = Inr r
                 \<and> map_of st p = (case r of None \<Rightarrow> map_of st0 p | Some v \<Rightarrow> Some v))
         else map_of st p = map_of st0 p"
  using assms
proof (induction props arbitrary: st0)
  case Nil
  then show ?case by simp
next
  case (Cons q props)
  show ?case
  proof (cases "resolve_property ic f d sk q")
    case (Inl e)
    with Cons.prems show ?thesis by simp
  next
    case (Inr r)
    define st1 where "st1 = (case r of None \<Rightarrow> st0 | Some v \<Rightarrow> AList.update q v st0)"
    from Cons.prems Inr have ra: "resolve_all ic f d sk props st1 = Inr st"
      by (cases r) (auto simp: st1_def)
    from Cons.prems have dq: "q \<notin> set props" and dp: "distinct props" by auto
    note ih = Cons.IH [OF ra dp]
    show ?thesis
    proof (cases "p = q")
      case True
      with ih dq have "map_of st p = map_of st1 p" by simp
      then show ?thesis using True Inr by (cases r) (auto simp: st1_def update_conv')
    next
      case False
      have "map_of st1 p = map_of st0 p" using False by (cases r) (auto simp: st1_def update_conv')
      with ih False show ?thesis by (auto split: if_splits option.splits)
    qed
  qed
qed

lemma useAnimatedStyle_lookup:
  assumes ok: "useAnimatedStyle ic (Some kfs) d f = Inr st"
    and "kf \<in> set kfs" "style_get kf p \<noteq> None"
  shows "resolve_property ic f d (sort_key kf_at kfs) p = Inr (map_of st p)"
proof -
  from assms have ne: "\<not> length kfs < 1" by (cases kfs) auto
  from ok ne have ra: "resolve_all ic f d (sort_key kf_at kfs) (properties_of (sort_key kf_at kfs)) [] = Inr st"
    by (simp add: useAnimatedStyle_def Let_def)
  have "p \<in> set (properties_of (sort_key kf_at kfs))"
    using assms(2,3) unfolding set_properties_of style_get_defined by auto
  with resolve_all_lookup [OF ra distinct_properties_of, of p]
  show ?thesis by (auto split: option.splits)
qed

lemma positions_strict:
  assumes "0 < d" "distinct (map kf_at (filter P (sort_key kf_at kfs)))"
  shows "sorted_wrt (<) (map (\<lambda>kf. kf_at kf * d) (filter P (sort_key kf_at kfs)))"
proof -
  have "sorted (map kf_at (filter P (sort_key kf_at kfs)))"
    by (intro sorted_filter) simp
  with assms(2) have "sorted_wrt (<) (map kf_at (filter P (sort_key kf_at kfs)))"
    by (simp add: strict_sorted_iff)
  then have "sorted_wrt (\<lambda>a b. kf_at a < kf_at b) (filter P (sort_key kf_at kfs))"
    by (simp add: sorted_wrt_map)
  then have "sorted_wrt (\<lambda>a b. kf_at a * d < kf_at b * d) (filter P (sort_key kf_at kfs))"
    by (rule sorted_wrt_mono_rel [rotated]) (use assms(1) in auto)
  then show ?thesis by (simp add: sorted_wrt_map)
qed

lemma resolve_property_many:
  assumes "kfp = filter (\<lambda>kf. style_get kf prop \<noteq> None) sk" "2 \<le> length kfp"
  shows "resolve_property ic f d sk prop =
     (if prop = ''opacity'' then
        (case interpolate f (map (\<lambda>kf. kf_at kf * d) kfp) (map opacity_number kfp) Clamp Clamp of
           Inl e \<Rightarrow> Inl e
         | Inr v \<Rightarrow> Inr (Some (VNum v)))
      else if prop = ''color'' \<or> prop = ''backgroundColor'' then
        (case ic f (map (\<lambda>kf. kf_at kf * d) kfp)
                (map (\<lambda>kf. case style_get kf prop of
                                       None \<Rightarrow> ''undefined''
                                     | Some v \<Rightarrow> to_string v) kfp) of
           Inl e \<Rightarrow> Inl e
         | Inr c \<Rightarrow> Inr (Some (VStr c)))
      else if prop = ''transform'' then
        (case transform_terms f d sk (allFuncs kfp) of
           Inl e \<Rightarrow> Inl e
         | Inr finalTransforms \<Rightarrow> Inr (Some (VStr (join_with '' '' finalTransforms))))
      else Inr (step_value f d prop kfp))"
proof -
  from assms(2) have "length kfp \<noteq> 0" "length kfp \<noteq> 1" by auto
  then show ?thesis
    unfolding resolve_property_def Let_def assms(1) [symmetric] by (simp only: if_False)
qed

section \<open>Properties of the transform channels\<close>

lemma channel_step_eq:
  "channel_step func d kf (lv, lu, ins, outs) =
     (let cur = (case lu of None \<Rightarrow> defaultUnit func | Some u \<Rightarrow> u);
          known = (case lv of None \<Rightarrow> Num (defaultValue func) | Some v \<Rightarrow> v);
          v1 = (case channel_value kf func of None \<Rightarrow> known | Some v \<Rightarrow> v);
          u1 = (case channel_unit kf func of
                  None \<Rightarrow> cur
                | Some u \<Rightarrow> if cur = defaultUnit func then u else cur)
      in (Some v1, Some u1, ins @ [kf_at kf * d], outs @ [v1]))"
  by (cases "map_of (parseTransform (style_get kf ''transform'')) func")
     (auto simp: channel_step_def Let_def channel_value_def channel_unit_def)

lemma channel_fold_ranges:
  "snd (snd (fold (channel_step func d) kfs (lv, lu, ins, outs))) =
     (ins @ map (\<lambda>kf. kf_at kf * d) kfs,
      outs @ carry_forward (case lv of None \<Rightarrow> Num (defaultValue func) | Some v \<Rightarrow> v)
               (map (\<lambda>kf. channel_value kf func) kfs))"
proof (induction kfs arbitrary: lv lu ins outs)
  case Nil
  then show ?case by simp
next
  case (Cons kf kfs)
  obtain v1 u1 where st: "channel_step func d kf (lv, lu, ins, outs) =
      (Some v1, Some u1, ins @ [kf_at kf * d], outs @ [v1])"
    and v1: "v1 = (case channel_value kf func of
                     None \<Rightarrow> (case lv of None \<Rightarrow> Num (defaultValue func) | Some v \<Rightarrow> v)
                   | Some v \<Rightarrow> v)"
    by (simp add: channel_step_eq Let_def)
  have "fold (channel_step func d) (kf # kfs) (lv, lu, ins, outs) =
      fold (channel_step func d) kfs (Some v1, Some u1, ins @ [kf_at kf * d], outs @ [v1])"
    by (simp only: fold.simps o_apply st)
  then have "snd (snd (fold (channel_step func d) (kf # kfs) (lv, lu, ins, outs))) =
     ((ins @ [kf_at kf * d]) @ map (\<lambda>kf. kf_at kf * d) kfs,
      (outs @ [v1]) @ carry_forward v1 (map (\<lambda>kf. channel_value kf func) kfs))"
    by (simp only: Cons.IH option.case)
  then show ?case
    by (cases "channel_value kf func") (simp_all add: v1)
qed

lemma channel_fold_unit:
  "kfs \<noteq> [] \<Longrightarrow>
   fst (snd (fold (channel_step func d) kfs (lv, lu, ins, outs))) =
     Some (if (case lu of None \<Rightarrow> defaultUnit func | Some u \<Rightarrow> u) \<noteq> defaultUnit func
           then (case lu of None \<Rightarrow> defaultUnit func | Some u \<Rightarrow> u)
           else printed_unit func kfs)"
proof (induction kfs arbitrary: lv lu ins outs)
  case Nil
  then show ?case by simp
next
  case (Cons kf kfs)
  define cur where "cur = (case lu of None \<Rightarrow> defaultUnit func | Some u \<Rightarrow> u)"
  define u1 where "u1 = (case channel_unit kf func of
                  None \<Rightarrow> cur
                | Some u \<Rightarrow> if cur = defaultUnit func then u else cur)"
  obtain v1 where st: "channel_step func d kf (lv, lu, ins, outs) =
      (Some v1, Some u1, ins @ [kf_at kf * d], outs @ [v1])"
    unfolding u1_def cur_def by (simp add: channel_step_eq Let_def)
  note u1 = u1_def
  have f: "fold (channel_step func d) (kf # kfs) (lv, lu, ins, outs) =
      fold (channel_step func d) kfs (Some v1, Some u1, ins @ [kf_at kf * d], outs @ [v1])"
    by (simp only: fold.simps o_apply st)
  have pu: "printed_unit func (kf # kfs) =
      (case channel_unit kf func of
         None \<Rightarrow> printed_unit func kfs
       | Some u \<Rightarrow> if u \<noteq> defaultUnit func then u else printed_unit func kfs)"
    by (simp add: printed_unit_def split: option.splits)
  have pn: "printed_unit func [] = defaultUnit func"
    by (simp add: printed_unit_def)
  show ?case
  proof (cases "kfs = []")
    case True
    have "fst (snd (fold (channel_step func d) (kf # kfs) (lv, lu, ins, outs))) = Some u1"
      by (simp add: True st)
    then show ?thesis unfolding cur_def [symmetric] pu
      by (simp add: u1 True pn split: option.splits)
  next
    case False
    have "fst (snd (fold (channel_step func d) (kf # kfs) (lv, lu, ins, outs))) =
       Some (if u1 \<noteq> defaultUnit func then u1 else printed_unit func kfs)"
      unfolding f Cons.IH [OF False] by simp
    then show ?thesis unfolding cur_def [symmetric] pu
      by (simp add: u1 split: option.splits)
  qed
qed

lemma channel_scan_eq:
  assumes "kfs \<noteq> []"
  shows "\<exists>lv. channel_scan func d kfs =
     (lv, Some (printed_unit func kfs), map (\<lambda>kf. kf_at kf * d) kfs,
      carry_forward (Num (defaultValue func)) (map (\<lambda>kf. channel_value kf func) kfs))"
proof -
  obtain lv lu ins outs where f: "channel_scan func d kfs = (lv, lu, ins, outs)"
    by (cases "channel_scan func d kfs") auto
  from channel_fold_ranges [of func d kfs None None "[]" "[]"] f
  have "ins = map (\<lambda>kf. kf_at kf * d) kfs"
    "outs = carry_forward (Num (defaultValue func)) (map (\<lambda>kf. channel_value kf func) kfs)"
    by (simp_all add: channel_scan_def)
  moreover from channel_fold_unit [OF assms, of func d None None "[]" "[]"] f
  have "lu = Some (printed_unit func kfs)" by (simp add: channel_scan_def)
  ultimately show ?thesis using f by simp
qed

lemma length_carry_forward: "length (carry_forward c xs) = length xs"
  by (induction c xs rule: carry_forward.induct) auto

lemma digit_not_special:
  "is_digit c \<Longrightarrow> c \<noteq> CHR ''.'' \<and> c \<noteq> CHR ''-'' \<and> c \<noteq> CHR ''+'' \<and> c \<noteq> CHR ''I''
     \<and> \<not> is_white_space c"
  by (auto simp: is_digit_def is_white_space_def)

lemma point_not_special:
  "\<not> is_digit CHR ''.'' \<and> \<not> is_white_space CHR ''.'' \<and> \<not> is_white_space CHR ''-''"
  by (simp add: is_digit_def is_white_space_def)

lemma match_number_at_shape:
  assumes "match_number_at s = Some (m, rest)"
  shows "\<exists>ds fs. (\<forall>c\<in>set ds. is_digit c) \<and> (\<forall>c\<in>set fs. is_digit c)
           \<and> (m = ds \<and> ds \<noteq> [] \<or> m = ds @ CHR ''.'' # fs \<and> fs \<noteq> [])"
proof -
  let ?ds = "takeWhile is_digit s"
  let ?fs = "takeWhile is_digit (tl (dropWhile is_digit s))"
  have d: "\<forall>c\<in>set ?ds. is_digit c" by (auto dest: set_takeWhileD)
  have f: "\<forall>c\<in>set ?fs. is_digit c" by (auto dest: set_takeWhileD)
  from assms have "m = ?ds \<and> ?ds \<noteq> [] \<or> m = ?ds @ CHR ''.'' # ?fs \<and> ?fs \<noteq> []"
    by (auto simp: match_number_at_def Let_def split: if_splits)
  with d f show ?thesis by blast
qed

lemma parseFloat_unsigned:
  assumes d: "\<forall>c\<in>set ds. is_digit c" and f: "\<forall>c\<in>set fs. is_digit c"
    and u: "u = ds \<and> ds \<noteq> [] \<or> u = ds @ CHR ''.'' # fs \<and> fs \<noteq> []"
  shows "\<exists>r. parseFloat u = Num r" and "\<exists>r. parseFloat (CHR ''-'' # u) = Num r"
proof -
  from u obtain c cs where ccs: "u = c # cs" and c: "is_digit c \<or> c = CHR ''.''"
    using d by (cases ds; cases u) auto
  have nw: "\<not> is_white_space c" "c \<noteq> CHR ''-''" "c \<noteq> CHR ''+''" "c \<noteq> CHR ''I''"
    using c digit_not_special [of c] point_not_special by auto
  have tw: "takeWhile is_digit u = ds"
    using u d point_not_special by (auto simp: takeWhile_append2)
  have dw: "dropWhile is_digit u = (if u = ds then [] else CHR ''.'' # fs)"
    using u d point_not_special by (auto simp: dropWhile_append2)
  have fw: "takeWhile is_digit fs = fs" using f by simp
  have ne: "\<not> (ds = [] \<and> (if u = ds then [] else fs) = [])" using u by auto
  have inf: "\<not> starts_with u ''Infinity''" using ccs nw by (simp add: starts_with_def)
  have sw: "\<not> starts_with u ''-''" "\<not> starts_with u ''+''" using ccs nw by (simp_all add: starts_with_def)
  have dropu: "dropWhile is_white_space u = u" using ccs nw by simp
  have dropm: "dropWhile is_white_space (CHR ''-'' # u) = CHR ''-'' # u"
    using point_not_special by simp
  show "\<exists>r. parseFloat u = Num r"
    unfolding parseFloat_def Let_def dropu using inf sw ne
    by (auto simp: tw dw fw starts_with_def)
  show "\<exists>r. parseFloat (CHR ''-'' # u) = Num r"
    unfolding parseFloat_def Let_def dropm using inf ne
    by (auto simp: tw dw fw starts_with_def)
qed

lemma match_value_at_Num:
  assumes "match_value_at s = Some (m, rest)"
  shows "\<exists>r. parseFloat m = Num r"
proof -
  from assms consider m' where "m = CHR ''-'' # m'" "match_number_at (tl s) = Some (m', rest)"
    | "match_number_at s = Some (m, rest)"
    by (auto simp: match_value_at_def split: if_splits option.splits)
  then show ?thesis
  proof cases
    case 1
    from match_number_at_shape [OF 1(2)] obtain ds fs where
      "\<forall>c\<in>set ds. is_digit c" "\<forall>c\<in>set fs. is_digit c"
      "m' = ds \<and> ds \<noteq> [] \<or> m' = ds @ CHR ''.'' # fs \<and> fs \<noteq> []" by blast
    from parseFloat_unsigned(2) [OF this] 1(1) show ?thesis by simp
  next
    case 2
    from match_number_at_shape [OF 2] obtain ds fs where
      "\<forall>c\<in>set ds. is_digit c" "\<forall>c\<in>set fs. is_digit c"
      "m = ds \<and> ds \<noteq> [] \<or> m = ds @ CHR ''.'' # fs \<and> fs \<noteq> []" by blast
    from parseFloat_unsigned(1) [OF this] show ?thesis .
  qed
qed

lemma match_value_Num: "match_value s = Some (m, u) \<Longrightarrow> \<exists>r. parseFloat m = Num r"
  by (induction s) (auto split: option.splits dest: match_value_at_Num)

lemma parseTransform_fold_Num:
  assumes "\<forall>k v u. map_of acc k = Some (v, u) \<longrightarrow> (\<exists>r. v = Num r)"
  shows "\<forall>k v u. map_of (fold (\<lambda>(func, valStr) result.
                  case match_value valStr of
                    None \<Rightarrow> result
                  | Some (num, unit) \<Rightarrow> AList.update func (parseFloat num, unit) result) ms acc) k
             = Some (v, u) \<longrightarrow> (\<exists>r. v = Num r)"
  using assms
proof (induction ms arbitrary: acc)
  case Nil
  then show ?case by simp
next
  case (Cons a ms)
  obtain func valStr where a: "a = (func, valStr)" by (cases a)
  show ?case
  proof (cases "match_value valStr")
    case None
    with Cons a show ?thesis by simp
  next
    case (Some p)
    obtain num unit where p: "p = (num, unit)" by (cases p)
    from match_value_Num Some p obtain r where r: "parseFloat num = Num r" by blast
    have "\<forall>k v u. map_of (AList.update func (Num r, unit) acc) k = Some (v, u)
        \<longrightarrow> (\<exists>r. v = Num r)"
      using Cons.prems by (auto simp: update_conv')
    from Cons.IH [OF this] show ?thesis by (simp add: a Some p r)
  qed
qed

lemma parseTransform_Num:
  "map_of (parseTransform tr) func = Some (v, u) \<Longrightarrow> \<exists>r. v = Num r"
proof (cases tr)
  case None
  then show "map_of (parseTransform tr) func = Some (v, u) \<Longrightarrow> \<exists>r. v = Num r"
    by (simp add: parseTransform_def)
next
  case (Some c)
  assume a: "map_of (parseTransform tr) func = Some (v, u)"
  show "\<exists>r. v = Num r"
  proof (cases c)
    case (VStr s)
    have "\<forall>k v u. map_of ([] :: (string \<times> number \<times> string) list) k = Some (v, u)
        \<longrightarrow> (\<exists>r. v = Num r)" by simp
    from parseTransform_fold_Num [OF this, of "regex_exec_all s"] a
    show ?thesis unfolding parseTransform_def Some VStr by simp blast
  qed (use a Some in \<open>simp_all add: parseTransform_def\<close>)
qed

lemma channel_value_Num: "channel_value kf func = Some v \<Longrightarrow> \<exists>r. v = Num r"
  by (auto simp: channel_value_def dest: parseTransform_Num)

lemma carry_forward_Num:
  "\<forall>x\<in>set xs. \<forall>v. x = Some v \<longrightarrow> (\<exists>r. v = Num r) \<Longrightarrow>
   \<exists>vs. carry_forward (Num c) xs = map Num vs"
proof (induction xs arbitrary: c)
  case Nil
  then show ?case by simp
next
  case (Cons x xs)
  show ?case
  proof (cases x)
    case None
    from Cons.IH [of c] Cons.prems obtain vs where "carry_forward (Num c) xs = map Num vs" by auto
    then have "carry_forward (Num c) (x # xs) = map Num (c # vs)" by (simp add: None)
    then show ?thesis by blast
  next
    case (Some v)
    with Cons.prems obtain r where r: "v = Num r" by auto
    from Cons.IH [of r] Cons.prems obtain vs where "carry_forward (Num r) xs = map Num vs" by auto
    then have "carry_forward (Num c) (x # xs) = map Num (r # vs)" by (simp add: Some r)
    then show ?thesis by blast
  qed
qed

lemma channel_outputs_finite:
  "\<exists>vs. carry_forward (Num (defaultValue func)) (map (\<lambda>kf. channel_value kf func) kfs) = map Num vs"
  by (rule carry_forward_Num) (auto dest: channel_value_Num)

lemma transform_channel_eq:
  assumes "2 \<le> length sk"
    and "carry_forward (Num (defaultValue func)) (map (\<lambda>kf. channel_value kf func) sk) = map Num vs"
  shows "transform_channel t d sk func =
     (case interpolate t (map (\<lambda>kf. kf_at kf * d) sk) (map Num vs) Extend Extend of
        Inl e \<Rightarrow> Inl e
      | Inr x \<Rightarrow> Inr [func @ ''('' @ number_to_string x @ printed_unit func sk @ '')''])"
proof -
  from assms(1) have ne: "sk \<noteq> []" by auto
  from channel_scan_eq [OF ne, of func d] obtain lv where
    "channel_scan func d sk = (lv, Some (printed_unit func sk), map (\<lambda>kf. kf_at kf * d) sk, map Num vs)"
    unfolding assms(2) by blast
  then show ?thesis using assms(1) by (simp add: transform_channel_def split: sum.splits)
qed

lemma filter_length_le2:
  "2 \<le> length (filter P xs) \<Longrightarrow> 2 \<le> length xs"
  using length_filter_le [of P xs] by linarith

section \<open>Properties of the composition\<close>

lemma SceneComponent_fields:
  assumes "SceneComponent ic scene isFirst isLast sd td index frame dur = Inr r"
  shows "rs_key r = index"
    and "scene_opacity isFirst isLast sd td frame = Inr (rs_opacity r)"
    and "rs_image r = Some (u, T) \<Longrightarrow> getKenBurnsEffect frame dur index = Inr T"
  using assms
  by (auto simp: SceneComponent_def Let_def split: sum.splits option.splits if_splits)

lemma render_sequences_member:
  "render_sequences ic dur bg n F xs = Inr rs \<Longrightarrow> r \<in> set rs \<Longrightarrow>
   \<exists>scene. SceneComponent ic (finalScene_of bg scene) (rs_key r = 0) (rs_key r = n - 1)
              DURATION_PER_SCENE TRANSITION_DURATION (rs_key r)
              (F - real (rs_key r) * DURATION_PER_SCENE) dur = Inr r"
proof (induction xs arbitrary: rs)
  case Nil
  then show ?case by simp
next
  case (Cons x xs)
  obtain index scene where x: "x = (index, scene)" by (cases x)
  let ?start = "real index * DURATION_PER_SCENE"
  show ?case
  proof (cases "?start \<le> F \<and> F < ?start + (DURATION_PER_SCENE + TRANSITION_DURATION)")
    case False
    with Cons.prems x have "render_sequences ic dur bg n F xs = Inr rs"
      by (simp add: Let_def)
    from Cons.IH [OF this Cons.prems(2)] show ?thesis .
  next
    case True
    with Cons.prems(1) x obtain r0 rs0 where
      r0: "SceneComponent ic (finalScene_of bg scene) (index = 0) (index = n - 1)
              DURATION_PER_SCENE TRANSITION_DURATION index (F - ?start) dur = Inr r0"
      and rs0: "render_sequences ic dur bg n F xs = Inr rs0" and rs: "rs = r0 # rs0"
      by (auto simp: Let_def split: sum.splits)
    show ?thesis
    proof (cases "r = r0")
      case True
      from SceneComponent_fields(1) [OF r0] have "rs_key r0 = index" .
      with r0 True show ?thesis by auto
    next
      case False
      with Cons.prems(2) rs have "r \<in> set rs0" by simp
      from Cons.IH [OF rs0 this] show ?thesis .
    qed
  qed
qed

lemma render_sequences_keys:
  "render_sequences ic dur bg n F xs = Inr rs \<Longrightarrow>
   map rs_key rs =
     filter (\<lambda>i. real i * DURATION_PER_SCENE \<le> F
                 \<and> F < real i * DURATION_PER_SCENE + (DURATION_PER_SCENE + TRANSITION_DURATION))
            (map fst xs)"
proof (induction xs arbitrary: rs)
  case Nil
  then show ?case by simp
next
  case (Cons x xs)
  obtain index scene where x: "x = (index, scene)" by (cases x)
  let ?start = "real index * DURATION_PER_SCENE"
  show ?case
  proof (cases "?start \<le> F \<and> F < ?start + (DURATION_PER_SCENE + TRANSITION_DURATION)")
    case False
    with Cons.prems x have "render_sequences ic dur bg n F xs = Inr rs"
      by (simp add: Let_def)
    from Cons.IH [OF this] False x show ?thesis by simp
  next
    case True
    with Cons.prems(1) x obtain r0 rs0 where
      r0: "SceneComponent ic (finalScene_of bg scene) (index = 0) (index = n - 1)
              DURATION_PER_SCENE TRANSITION_DURATION index (F - ?start) dur = Inr r0"
      and rs0: "render_sequences ic dur bg n F xs = Inr rs0" and rs: "rs = r0 # rs0"
      by (auto simp: Let_def split: sum.splits)
    from SceneComponent_fields(1) [OF r0] Cons.IH [OF rs0] True x rs show ?thesis by simp
  qed
qed

lemma rendered_scene_at_member:
  assumes "Animation ic dur vr F = Inr out" "rendered_scene_at (Inr out) index = Some r"
  shows "\<exists>scene ss. scenes vr = Some ss
           \<and> SceneComponent ic scene (index = 0) (index = length ss - 1)
              DURATION_PER_SCENE TRANSITION_DURATION index
              (F - real index * DURATION_PER_SCENE) dur = Inr r"
proof -
  from assms(2) obtain st rs where out: "out = Composition st rs"
    and f: "find (\<lambda>r. rs_key r = index) rs = Some r"
    by (cases out) (auto simp: rendered_scene_at_def)
  from f have k: "rs_key r = index" and m: "r \<in> set rs"
    by (auto simp: find_Some_iff)
  from assms(1) out obtain ss where ss: "scenes vr = Some ss" and
    "render_sequences ic dur (vr_backgroundColor vr) (length ss) F (enumerate 0 ss) = Inr rs"
    by (auto simp: Animation_def split: option.splits if_splits sum.splits)
  from render_sequences_member [OF this(2) m] k ss show ?thesis by blast
qed

lemma rendered_scene_at_active:
  assumes ok: "Animation ic dur vr F = Inr out" and ss: "scenes vr = Some ss"
    and i: "index < length ss"
    and act: "real index * DURATION_PER_SCENE \<le> F"
      "F < real index * DURATION_PER_SCENE + (DURATION_PER_SCENE + TRANSITION_DURATION)"
  shows "\<exists>r. rendered_scene_at (Inr out) index = Some r"
proof -
  from i have ne: "length ss \<noteq> 0" by auto
  from ok ss ne obtain rs where
    rs: "render_sequences ic dur (vr_backgroundColor vr) (length ss) F (enumerate 0 ss) = Inr rs"
    and out: "out = Composition [(''backgroundColor'', VStr ''black'')] rs"
    by (auto simp: Animation_def split: sum.splits)
  have "index \<in> set (map rs_key rs)"
    unfolding render_sequences_keys [OF rs] using i act by simp
  then have "find (\<lambda>r. rs_key r = index) rs \<noteq> None"
    by (auto simp: find_None_iff)
  then show ?thesis by (auto simp: rendered_scene_at_def out)
qed

section \<open>Resolution without errors\<close>

lemma opacity_sorted_value:
  assumes d: "0 < duration"
    and kfo: "kfo = filter (\<lambda>kf. style_get kf ''opacity'' \<noteq> None) (sort_key kf_at keyframes)"
    and two: "2 \<le> length kfo"
    and dist: "distinct (map kf_at kfo)"
    and vals: "map opacity_number kfo = map Num vs"
  shows "\<exists>v. resolve_property ic t duration (sort_key kf_at keyframes) ''opacity'' = Inr (Some (VNum v))
    \<and> (\<forall>st. useAnimatedStyle ic (Some keyframes) duration t = Inr st
           \<longrightarrow> map_of st ''opacity'' = Some (VNum v))
    \<and> (t \<le> kf_at (kfo ! 0) * duration \<longrightarrow> v = vs ! 0)
    \<and> (kf_at (kfo ! (length kfo - 1)) * duration \<le> t \<longrightarrow> v = vs ! (length kfo - 1))
    \<and> (\<forall>k. k + 1 < length kfo \<and> kf_at (kfo ! k) * duration \<le> t
             \<and> t \<le> kf_at (kfo ! (k + 1)) * duration
           \<longrightarrow> v = vs ! k + (t - kf_at (kfo ! k) * duration) * (vs ! (k + 1) - vs ! k)
                              / (kf_at (kfo ! (k + 1)) * duration - kf_at (kfo ! k) * duration))"
proof -
  let ?sk = "sort_key kf_at keyframes"
  let ?xs = "map (\<lambda>kf. kf_at kf * duration) kfo"
  have len: "length ?xs = length vs"
    using arg_cong [OF vals, of length] by simp
  have s: "sorted_wrt (<) ?xs"
    unfolding kfo using d dist [unfolded kfo] by (rule positions_strict)
  have n2: "2 \<le> length ?xs" using two by simp
  obtain m where m: "length ?xs = Suc (Suc m)"
    using n2 by (cases ?xs; cases "tl ?xs") auto
  have rp: "resolve_property ic t duration ?sk ''opacity'' =
      (case interpolate t ?xs (map Num vs) Clamp Clamp of
         Inl e \<Rightarrow> Inl e | Inr v \<Rightarrow> Inr (Some (VNum v)))"
    by (simp add: resolve_property_many [OF kfo two] vals)
  obtain v where v: "interpolate t ?xs (map Num vs) Clamp Clamp = Inr v"
    using interpolate_checked [OF s len n2] by blast
  have r: "resolve_property ic t duration ?sk ''opacity'' = Inr (Some (VNum v))"
    by (simp add: rp v)
  have u: "map_of st ''opacity'' = Some (VNum v)"
    if ok: "useAnimatedStyle ic (Some keyframes) duration t = Inr st" for st
  proof -
    from two obtain kf where "kf \<in> set kfo" by (cases kfo) auto
    then have "kf \<in> set keyframes" "style_get kf ''opacity'' \<noteq> None"
      by (auto simp: kfo)
    from useAnimatedStyle_lookup [OF ok this] r show ?thesis by simp
  qed
  have left: "v = vs ! 0" if "t \<le> kf_at (kfo ! 0) * duration"
  proof -
    from two have "0 < length kfo" by (cases kfo) simp_all
    with that have "t \<le> ?xs ! 0" by simp
    from interpolate_left(1) [OF s len n2 this, of Clamp]
    have "Inr v = (Inr (vs ! 0) :: error + real)" unfolding v .
    then show ?thesis by (simp only: sum.inject)
  qed
  have right: "v = vs ! (length kfo - 1)" if "kf_at (kfo ! (length kfo - 1)) * duration \<le> t"
  proof -
    from m have lm: "length kfo - 1 = Suc m" by simp
    from that m have "?xs ! Suc m \<le> t" unfolding lm by simp
    from interpolate_right(1) [OF s len m this, of Clamp]
    have "Inr v = (Inr (vs ! Suc m) :: error + real)" unfolding v .
    then show ?thesis unfolding lm by (simp only: sum.inject)
  qed
  have mid: "v = vs ! k + (t - kf_at (kfo ! k) * duration) * (vs ! (k + 1) - vs ! k)
                              / (kf_at (kfo ! (k + 1)) * duration - kf_at (kfo ! k) * duration)"
    if "k + 1 < length kfo" "kf_at (kfo ! k) * duration \<le> t" "t \<le> kf_at (kfo ! (k + 1)) * duration"
    for k
  proof -
    from that(1) have k: "k < length kfo" "k + 1 < length kfo" by simp_all
    have x: "?xs ! k = kf_at (kfo ! k) * duration" "?xs ! (k + 1) = kf_at (kfo ! (k + 1)) * duration"
      using k by (simp_all only: nth_map)
    from that have a: "k + 1 < length ?xs" "?xs ! k \<le> t" "t \<le> ?xs ! (k + 1)"
      unfolding x by simp_all
    from interpolate_segment [OF s len a, of Clamp Clamp]
    have "Inr v = (Inr (vs ! k + (t - ?xs ! k) * (vs ! (k + 1) - vs ! k) / (?xs ! (k + 1) - ?xs ! k))
        :: error + real)" unfolding v .
    then show ?thesis unfolding x by (simp only: sum.inject)
  qed
  show ?thesis
  proof (intro exI [of _ v] conjI allI impI, goal_cases)
    case 1
    show ?case by (rule r)
  next
    case (2 st)
    then show ?case by (rule u)
  next
    case 3
    then show ?case by (rule left)
  next
    case 4
    then show ?case by (rule right)
  next
    case (5 k)
    then show ?case by (intro mid) simp_all
  qed
qed

lemma resolve_all_succeeds:
  "\<forall>p\<in>set props. \<exists>r. resolve_property ic f d sk p = Inr r \<Longrightarrow>
   \<exists>st. resolve_all ic f d sk props st0 = Inr st"
proof (induction props arbitrary: st0)
  case Nil
  then show ?case by simp
next
  case (Cons p props)
  from Cons.prems obtain r where r: "resolve_property ic f d sk p = Inr r" by auto
  from Cons.prems have rest: "\<forall>p\<in>set props. \<exists>r. resolve_property ic f d sk p = Inr r" by simp
  show ?case
  proof (cases r)
    case None
    with r Cons.IH [OF rest, of st0] show ?thesis by simp
  next
    case (Some v)
    with r Cons.IH [OF rest, of "AList.update p v st0"] show ?thesis by simp
  qed
qed

lemma transform_terms_eq:
  "\<forall>func\<in>set funcs. transform_channel f d sk func = Inr [g func] \<Longrightarrow>
   transform_terms f d sk funcs = Inr (map g funcs)"
  by (induction funcs) auto

lemma map_Num_exists:
  "\<forall>x\<in>set xs. \<exists>r. g x = Num r \<Longrightarrow> \<exists>vs. map g xs = map Num vs"
proof (induction xs)
  case Nil
  then show ?case by simp
next
  case (Cons x xs)
  then obtain r vs where "g x = Num r" "map g xs = map Num vs" by auto
  then have "map g (x # xs) = map Num (r # vs)" by simp
  then show ?case by blast
qed

lemma distinct_at_sorted:
  "distinct (map kf_at kfs) \<Longrightarrow> distinct (map kf_at (sort_key kf_at kfs))"
  by (simp add: distinct_map)

lemma positions_strict_all:
  assumes "0 < d" "distinct (map kf_at kfs)"
  shows "sorted_wrt (<) (map (\<lambda>kf. kf_at kf * d) (sort_key kf_at kfs))"
proof -
  have "sorted_wrt (<) (map (\<lambda>kf. kf_at kf * d) (filter (\<lambda>_. True) (sort_key kf_at kfs)))"
    using assms by (intro positions_strict) (simp_all add: distinct_at_sorted)
  then show ?thesis by simp
qed

lemma channel_values_Num:
  "carry_forward (Num (defaultValue func)) (map (\<lambda>kf. channel_value kf func) kfs)
     = map Num (channel_values func kfs)"
proof -
  obtain vs where vs: "carry_forward (Num (defaultValue func))
      (map (\<lambda>kf. channel_value kf func) kfs) = map Num vs"
    using channel_outputs_finite by blast
  have "map the_num (map Num vs) = vs" by (induction vs) auto
  then show ?thesis by (simp add: channel_values_def vs)
qed

lemma length_channel_values: "length (channel_values func kfs) = length kfs"
  by (simp add: channel_values_def length_carry_forward)

lemma transform_channel_value:
  assumes s: "sorted_wrt (<) (map (\<lambda>kf. kf_at kf * d) sk)" and n2: "2 \<le> length sk"
  shows "transform_channel t d sk func =
     Inr [func @ ''('' @ number_to_string
            (interpolateFunction t
               (map (\<lambda>kf. kf_at kf * d) sk ! findRange t (map (\<lambda>kf. kf_at kf * d) sk),
                map (\<lambda>kf. kf_at kf * d) sk ! (findRange t (map (\<lambda>kf. kf_at kf * d) sk) + 1))
               (channel_values func sk ! findRange t (map (\<lambda>kf. kf_at kf * d) sk),
                channel_values func sk ! (findRange t (map (\<lambda>kf. kf_at kf * d) sk) + 1))
               Extend Extend)
            @ printed_unit func sk @ '')'']"
proof -
  have len: "length (map (\<lambda>kf. kf_at kf * d) sk) = length (channel_values func sk)"
    by (simp add: length_channel_values)
  have n2': "2 \<le> length (map (\<lambda>kf. kf_at kf * d) sk)" using n2 by simp
  show ?thesis
    unfolding transform_channel_eq [OF n2 channel_values_Num] interpolate_checked [OF s len n2']
    by simp
qed

lemma allFuncs_unfiltered:
  "allFuncs (filter (\<lambda>kf. style_get kf ''transform'' \<noteq> None) kfs) = allFuncs kfs"
proof -
  have "fold (\<lambda>kf funcs. fold (\<lambda>key fs. set_add fs key)
                  (object_keys (parseTransform (style_get kf ''transform''))) funcs)
          (filter (\<lambda>kf. style_get kf ''transform'' \<noteq> None) kfs) acc
      = fold (\<lambda>kf funcs. fold (\<lambda>key fs. set_add fs key)
                  (object_keys (parseTransform (style_get kf ''transform''))) funcs) kfs acc" for acc
  proof (induction kfs arbitrary: acc)
    case Nil
    show ?case by simp
  next
    case (Cons kf kfs)
    show ?case
    proof (cases "style_get kf ''transform''")
      case None
      then show ?thesis using Cons by (simp add: parseTransform_def object_keys_def)
    next
      case (Some v)
      then show ?thesis using Cons by simp
    qed
  qed
  then show ?thesis by (simp add: allFuncs_def)
qed

lemma set_add_fold_first:
  "fold (\<lambda>x s. set_add s x) xs [] = rev (remdups (rev xs))"
proof (induction xs rule: rev_induct)
  case Nil
  show ?case by simp
next
  case (snoc x xs)
  then show ?case by (simp add: set_add_def)
qed

lemma fold_fold_concat:
  "fold (\<lambda>x acc. fold f (g x) acc) xs acc = fold f (concat (map g xs)) acc"
  by (induction xs arbitrary: acc) simp_all

lemma allFuncs_in_order: "allFuncs kfs = channels_in_order kfs"
  unfolding allFuncs_def channels_in_order_def
  by (simp only: fold_fold_concat set_add_fold_first)

lemma distinct_at_filter_sorted:
  "distinct (map kf_at (filter P kfs)) \<Longrightarrow>
   distinct (map kf_at (filter P (sort_key kf_at kfs)))"
  unfolding filter_sort by (rule distinct_at_sorted)

lemma at_strict:
  assumes "distinct (map kf_at (filter P kfs))"
  shows "sorted_wrt (<) (map kf_at (filter P (sort_key kf_at kfs)))"
proof -
  have "sorted (map kf_at (filter P (sort_key kf_at kfs)))"
    by (intro sorted_filter) simp
  moreover have "distinct (map kf_at (filter P (sort_key kf_at kfs)))"
    using assms by (rule distinct_at_filter_sorted)
  ultimately show ?thesis by (simp add: strict_sorted_iff)
qed

lemma length_filter_sorted:
  "length (filter P (sort_key kf_at kfs)) = length (filter P kfs)"
  by (simp add: filter_sort)

lemma no_string_opacity_number:
  "\<forall>s. style_get kf ''opacity'' \<noteq> Some (VStr s) \<Longrightarrow> \<exists>r. opacity_number kf = Num r"
  by (auto simp: opacity_number_def split: option.splits cssval.splits)

lemma transform_terms_value:
  assumes s: "sorted_wrt (<) (map (\<lambda>kf. kf_at kf * d) sk)" and n2: "2 \<le> length sk"
  shows "transform_terms t d sk funcs =
     Inr (map (\<lambda>func. func @ ''('' @ number_to_string
            (interpolateFunction t
               (map (\<lambda>kf. kf_at kf * d) sk ! findRange t (map (\<lambda>kf. kf_at kf * d) sk),
                map (\<lambda>kf. kf_at kf * d) sk ! (findRange t (map (\<lambda>kf. kf_at kf * d) sk) + 1))
               (channel_values func sk ! findRange t (map (\<lambda>kf. kf_at kf * d) sk),
                channel_values func sk ! (findRange t (map (\<lambda>kf. kf_at kf * d) sk) + 1))
               Extend Extend)
            @ printed_unit func sk @ '')'') funcs)"
  by (rule transform_terms_eq) (simp add: transform_channel_value [OF s n2])

lemma resolve_property_succeeds:
  assumes d: "0 < d"
    and odist: "distinct (map kf_at (filter (\<lambda>kf. style_get kf ''opacity'' \<noteq> None) kfs))"
    and tdist: "2 \<le> length (filter (\<lambda>kf. style_get kf ''transform'' \<noteq> None) kfs)
        \<longrightarrow> distinct (map kf_at kfs)"
    and opac: "\<forall>kf\<in>set kfs. \<forall>s. style_get kf ''opacity'' \<noteq> Some (VStr s)"
    and colors: "\<forall>p\<in>{''color'', ''backgroundColor''}.
        2 \<le> length (filter (\<lambda>kf. style_get kf p \<noteq> None) kfs)
        \<longrightarrow> (\<forall>xs ys. \<exists>c. ic t xs ys = Inr c)"
  shows "\<exists>r. resolve_property ic t d (sort_key kf_at kfs) p = Inr r"
proof -
  let ?sk = "sort_key kf_at kfs"
  define kfp where "kfp = filter (\<lambda>kf. style_get kf p \<noteq> None) ?sk"
  show ?thesis
  proof (cases "2 \<le> length kfp")
    case False
    then have "length kfp = 0 \<or> length kfp = 1" by linarith
    then show ?thesis
      unfolding resolve_property_def Let_def kfp_def [symmetric] by auto
  next
    case True
    note rp = resolve_property_many [OF kfp_def True, of ic t d]
    have two: "2 \<le> length (filter (\<lambda>kf. style_get kf p \<noteq> None) kfs)"
      using True by (simp add: kfp_def length_filter_sorted)
    consider (o) "p = ''opacity''" | (c) "p = ''color'' \<or> p = ''backgroundColor''"
      | (t) "p = ''transform''"
      | (s) "p \<noteq> ''opacity''" "p \<noteq> ''color''" "p \<noteq> ''backgroundColor''" "p \<noteq> ''transform''"
      by blast
    then show ?thesis
    proof cases
      case o
      have "\<forall>kf\<in>set kfp. \<exists>r. opacity_number kf = Num r"
        using opac by (auto simp: kfp_def intro: no_string_opacity_number)
      then obtain vs where vs: "map opacity_number kfp = map Num vs"
        using map_Num_exists by blast
      have len: "length (map (\<lambda>kf. kf_at kf * d) kfp) = length vs"
        using arg_cong [OF vs, of length] by simp
      have s: "sorted_wrt (<) (map (\<lambda>kf. kf_at kf * d) kfp)"
        unfolding kfp_def o using d
        by (rule positions_strict) (rule distinct_at_filter_sorted [OF odist])
      have n2: "2 \<le> length (map (\<lambda>kf. kf_at kf * d) kfp)" using True by simp
      show ?thesis
        unfolding rp vs interpolate_checked [OF s len n2] using o by simp
    next
      case c
      with two colors have "\<forall>xs ys. \<exists>c. ic t xs ys = Inr c" by auto
      then obtain col where "ic t (map (\<lambda>kf. kf_at kf * d) kfp)
                (map (\<lambda>kf. case style_get kf p of
                                       None \<Rightarrow> ''undefined''
                                     | Some v \<Rightarrow> to_string v) kfp) = Inr col" by blast
      then show ?thesis unfolding rp using c by auto
    next
      case t
      have n2: "2 \<le> length ?sk"
        using True unfolding kfp_def by (rule filter_length_le2)
      from two tdist have dist: "distinct (map kf_at kfs)" unfolding t by blast
      have s: "sorted_wrt (<) (map (\<lambda>kf. kf_at kf * d) ?sk)"
        using d dist by (rule positions_strict_all)
      have "\<exists>ts. transform_terms t d ?sk (allFuncs kfp) = Inr ts"
        using transform_terms_value [OF s n2] by blast
      then show ?thesis unfolding rp using t by auto
    next
      case s
      then show ?thesis unfolding rp by simp
    qed
  qed
qed

lemma useAnimatedStyle_succeeds:
  assumes d: "0 < d"
    and odist: "distinct (map kf_at (filter (\<lambda>kf. style_get kf ''opacity'' \<noteq> None) kfs))"
    and tdist: "2 \<le> length (filter (\<lambda>kf. style_get kf ''transform'' \<noteq> None) kfs)
        \<longrightarrow> distinct (map kf_at kfs)"
    and opac: "\<forall>kf\<in>set kfs. \<forall>s. style_get kf ''opacity'' \<noteq> Some (VStr s)"
    and colors: "\<forall>p\<in>{''color'', ''backgroundColor''}.
        2 \<le> length (filter (\<lambda>kf. style_get kf p \<noteq> None) kfs)
        \<longrightarrow> (\<forall>xs ys. \<exists>c. ic t xs ys = Inr c)"
  shows "\<exists>st. useAnimatedStyle ic (Some kfs) d t = Inr st"
proof -
  have "\<exists>st. resolve_all ic t d (sort_key kf_at kfs) props [] = Inr st" for props
    by (rule resolve_all_succeeds) (use resolve_property_succeeds [of d kfs ic t, OF assms] in blast)
  then show ?thesis by (simp add: useAnimatedStyle_def Let_def)
qed

lemma strict_nth_less:
  assumes "sorted_wrt (<) (map kf_at ks)" "i < j" "j < length ks"
  shows "kf_at (ks ! i) < kf_at (ks ! j)"
  using sorted_wrt_nth_less [OF assms(1), of i j] assms(2,3) by simp

lemma carry_forward_written:
  "k < length xs \<Longrightarrow> xs ! k = Some v \<Longrightarrow> carry_forward c xs ! k = v"
proof (induction c xs arbitrary: k rule: carry_forward.induct)
  case (1 known)
  then show ?case by simp
next
  case (2 known xs)
  then show ?case by (cases k) simp_all
next
  case (3 known v xs)
  then show ?case by (cases k) simp_all
qed

lemma carry_forward_kept:
  "Suc k < length xs \<Longrightarrow> xs ! Suc k = None \<Longrightarrow>
   carry_forward c xs ! Suc k = carry_forward c xs ! k"
proof (induction c xs arbitrary: k rule: carry_forward.induct)
  case (1 known)
  then show ?case by simp
next
  case (2 known xs)
  then show ?case by (cases k; cases xs) simp_all
next
  case (3 known v xs)
  then show ?case by (cases k; cases xs) simp_all
qed

lemma carry_forward_default:
  "xs \<noteq> [] \<Longrightarrow> xs ! 0 = None \<Longrightarrow> carry_forward c xs ! 0 = c"
  by (cases xs) simp_all

lemma channel_values_nth:
  "k < length kfs \<Longrightarrow>
   carry_forward (Num (defaultValue func)) (map (\<lambda>kf. channel_value kf func) kfs) ! k
     = Num (channel_values func kfs ! k)"
  unfolding channel_values_Num by (simp add: length_channel_values)

lemma channel_values_written:
  assumes "k < length kfs" "channel_value (kfs ! k) func = Some v"
  shows "v = Num (channel_values func kfs ! k)"
  using carry_forward_written [of k "map (\<lambda>kf. channel_value kf func) kfs" v "Num (defaultValue func)"]
    channel_values_nth [OF assms(1), of func] assms by simp

lemma channel_values_kept:
  assumes "k + 1 < length kfs" "channel_value (kfs ! (k + 1)) func = None"
  shows "channel_values func kfs ! (k + 1) = channel_values func kfs ! k"
proof -
  have "carry_forward (Num (defaultValue func)) (map (\<lambda>kf. channel_value kf func) kfs) ! Suc k
      = carry_forward (Num (defaultValue func)) (map (\<lambda>kf. channel_value kf func) kfs) ! k"
    using assms by (intro carry_forward_kept) simp_all
  moreover have "k < length kfs" "Suc k < length kfs" using assms(1) by simp_all
  ultimately have "Num (channel_values func kfs ! Suc k) = Num (channel_values func kfs ! k)"
    by (simp only: channel_values_nth)
  then show ?thesis by simp
qed

lemma channel_values_default:
  assumes "kfs \<noteq> []" "channel_value (kfs ! 0) func = None"
  shows "channel_values func kfs ! 0 = (if string_includes func ''scale'' then 1 else 0)"
proof -
  have "carry_forward (Num (defaultValue func)) (map (\<lambda>kf. channel_value kf func) kfs) ! 0
      = Num (defaultValue func)"
    using assms by (intro carry_forward_default) (simp_all add: nth_map)
  moreover have "0 < length kfs" using assms(1) by simp
  ultimately have "Num (channel_values func kfs ! 0) = Num (defaultValue func)"
    by (simp only: channel_values_nth)
  then show ?thesis by (simp add: defaultValue_def)
qed

lemma set_map_filter_units:
  "set (List.map_filter f xs) = {y. \<exists>x\<in>set xs. f x = Some y}"
  by (induction xs) (auto simp: List.map_filter_simps split: option.splits)

lemma printed_unit_default:
  assumes "\<forall>kf\<in>set kfs. \<forall>u. channel_unit kf func = Some u \<longrightarrow> u = defaultUnit func"
  shows "printed_unit func kfs = defaultUnit func"
proof -
  have "find (\<lambda>u. u \<noteq> defaultUnit func) (List.map_filter (\<lambda>kf. channel_unit kf func) kfs) = None"
    using assms by (auto simp: find_None_iff set_map_filter_units)
  then show ?thesis by (simp add: printed_unit_def)
qed

lemma printed_unit_first:
  assumes "channel_unit kf func = Some u" "u \<noteq> defaultUnit func"
    and "\<forall>x\<in>set pre. \<forall>u'. channel_unit x func = Some u' \<longrightarrow> u' = defaultUnit func"
  shows "printed_unit func (pre @ kf # post) = u"
proof -
  have "find (\<lambda>u. u \<noteq> defaultUnit func)
          (List.map_filter (\<lambda>kf. channel_unit kf func) (pre @ kf # post)) = Some u"
    using assms(3)
  proof (induction pre)
    case Nil
    then show ?case using assms(1,2) by (simp add: List.map_filter_simps)
  next
    case (Cons x pre)
    then show ?case by (cases "channel_unit x func") (simp_all add: List.map_filter_simps)
  qed
  then show ?thesis by (simp add: printed_unit_def)
qed

lemma printed_unit_nth:
  assumes k: "k < length kfs" and u: "channel_unit (kfs ! k) func = Some u" "u \<noteq> defaultUnit func"
    and before: "\<forall>j<k. \<forall>u'. channel_unit (kfs ! j) func = Some u' \<longrightarrow> u' = defaultUnit func"
  shows "printed_unit func kfs = u"
proof -
  have split: "kfs = take k kfs @ kfs ! k # drop (Suc k) kfs"
    using k by (rule id_take_nth_drop)
  have "\<forall>x\<in>set (take k kfs). \<forall>u'. channel_unit x func = Some u' \<longrightarrow> u' = defaultUnit func"
  proof
    fix x
    assume "x \<in> set (take k kfs)"
    then obtain j where "j < k" "j < length kfs" "x = kfs ! j"
      using k by (auto simp: in_set_conv_nth)
    with before show "\<forall>u'. channel_unit x func = Some u' \<longrightarrow> u' = defaultUnit func" by simp
  qed
  from printed_unit_first [OF u this, of "drop (Suc k) kfs"] split show ?thesis by simp
qed

lemma chronological_unique:
  assumes dist: "distinct (map kf_at kfs)"
    and s: "set sk = set kfs" and strict: "sorted_wrt (<) (map kf_at sk)"
  shows "sk = sort_key kf_at kfs"
proof -
  have "map kf_at sk = map kf_at (sort_key kf_at kfs)"
  proof (rule sorted_distinct_set_unique)
    show "sorted (map kf_at sk)" "distinct (map kf_at sk)"
      using strict by (simp_all add: strict_sorted_iff)
    show "sorted (map kf_at (sort_key kf_at kfs))" by simp
    show "distinct (map kf_at (sort_key kf_at kfs))" using dist by (rule distinct_at_sorted)
    show "set (map kf_at sk) = set (map kf_at (sort_key kf_at kfs))" using s by simp
  qed
  moreover have "inj_on kf_at (set sk \<union> set (sort_key kf_at kfs))"
    using dist s by (simp add: distinct_map)
  ultimately show ?thesis by (simp only: inj_on_map_eq_map)
qed

lemma transform_channel_segment:
  assumes s: "sorted_wrt (<) (map (\<lambda>kf. kf_at kf * d) sk)"
    and k: "k + 1 < length sk" "kf_at (sk ! k) * d \<le> t" "t \<le> kf_at (sk ! (k + 1)) * d"
  shows "transform_channel t d sk func =
     Inr [func @ ''('' @ number_to_string
            (channel_values func sk ! k
             + (t - kf_at (sk ! k) * d)
               * (channel_values func sk ! (k + 1) - channel_values func sk ! k)
               / (kf_at (sk ! (k + 1)) * d - kf_at (sk ! k) * d))
          @ printed_unit func sk @ '')'']"
proof -
  let ?xs = "map (\<lambda>kf. kf_at kf * d) sk"
  from k(1) have n2: "2 \<le> length sk" by simp
  have l: "length ?xs = length (channel_values func sk)"
    by (simp add: length_channel_values)
  from k(1) have kk: "k < length sk" by simp
  have x: "?xs ! k = kf_at (sk ! k) * d" "?xs ! (k + 1) = kf_at (sk ! (k + 1)) * d"
    using k(1) kk by (simp_all only: nth_map)
  from k have b: "k + 1 < length ?xs" "?xs ! k \<le> t" "t \<le> ?xs ! (k + 1)"
    unfolding x by simp_all
  show ?thesis
    unfolding transform_channel_eq [OF n2 channel_values_Num] interpolate_segment [OF s l b] x
    by simp
qed

lemma transform_terms_segment:
  assumes s: "sorted_wrt (<) (map (\<lambda>kf. kf_at kf * d) sk)"
    and k: "k + 1 < length sk" "kf_at (sk ! k) * d \<le> t" "t \<le> kf_at (sk ! (k + 1)) * d"
  shows "transform_terms t d sk funcs =
     Inr (map (\<lambda>func. func @ ''('' @ number_to_string
            (channel_values func sk ! k
             + (t - kf_at (sk ! k) * d)
               * (channel_values func sk ! (k + 1) - channel_values func sk ! k)
               / (kf_at (sk ! (k + 1)) * d - kf_at (sk ! k) * d))
          @ printed_unit func sk @ '')'') funcs)"
  by (rule transform_terms_eq) (simp add: transform_channel_segment [OF s k])

section \<open>Opacity\<close>

text \<open>
  C1. Let the keyframes of an element be stored in any order, let \<open>ko\<close> be those that
  define \<open>opacity\<close>, at least two and at pairwise different positions, each with a
  number \<open>op kf\<close> stored as its opacity, and let the duration be positive. For the other
  properties of the element to resolve, let all keyframes lie at pairwise different
  positions if two or more have a transform, and let the colour interpolation return if a
  colour is animated. Then \<open>useAnimatedStyle\<close> returns a style at every frame \<open>t\<close>,
  and the opacity stored in that style is a number \<open>v\<close> such that: at or before the
  position \<open>at * duration\<close> of the earliest opacity keyframe, \<open>v\<close> is the opacity
  stored in that keyframe; at or after the position of the latest one, \<open>v\<close> is the
  opacity stored in that keyframe; and between the positions of two opacity keyframes
  \<open>a\<close> and \<open>b\<close> with no opacity keyframe between them, \<open>v\<close> lies on the line
  through \<open>(at a * duration, op a)\<close> and \<open>(at b * duration, op b)\<close>.
\<close>

theorem opacity_piecewise_linear:
  assumes d: "0 < duration"
    and ko: "ko = filter (\<lambda>kf. style_get kf ''opacity'' \<noteq> None) keyframes"
    and two: "2 \<le> length ko"
    and nums: "\<forall>kf\<in>set ko. style_get kf ''opacity'' = Some (VNum (op kf))"
    and dist: "distinct (map kf_at ko)"
    and tdist: "2 \<le> length (filter (\<lambda>kf. style_get kf ''transform'' \<noteq> None) keyframes)
        \<longrightarrow> distinct (map kf_at keyframes)"
    and colors: "\<forall>p\<in>{''color'', ''backgroundColor''}.
        2 \<le> length (filter (\<lambda>kf. style_get kf p \<noteq> None) keyframes)
        \<longrightarrow> (\<forall>xs ys. \<exists>c. ic t xs ys = Inr c)"
  shows "\<exists>st v. useAnimatedStyle ic (Some keyframes) duration t = Inr st
    \<and> map_of st ''opacity'' = Some (VNum v)
    \<and> (\<forall>a\<in>set ko. (\<forall>b\<in>set ko. kf_at a \<le> kf_at b) \<and> t \<le> kf_at a * duration
          \<longrightarrow> v = op a)
    \<and> (\<forall>a\<in>set ko. (\<forall>b\<in>set ko. kf_at b \<le> kf_at a) \<and> kf_at a * duration \<le> t
          \<longrightarrow> v = op a)
    \<and> (\<forall>a\<in>set ko. \<forall>b\<in>set ko.
          kf_at a < kf_at b \<and> (\<forall>c\<in>set ko. \<not> (kf_at a < kf_at c \<and> kf_at c < kf_at b))
          \<and> kf_at a * duration \<le> t \<and> t \<le> kf_at b * duration
          \<longrightarrow> v = op a + (t - kf_at a * duration) * (op b - op a)
                            / (kf_at b * duration - kf_at a * duration))"
proof -
  define kfo where "kfo = filter (\<lambda>kf. style_get kf ''opacity'' \<noteq> None) (sort_key kf_at keyframes)"
  have set_eq: "set kfo = set ko" by (simp add: kfo_def ko)
  have len_eq: "length kfo = length ko" by (simp add: kfo_def ko length_filter_sorted)
  have two': "2 \<le> length kfo" using two len_eq by simp
  have dist': "distinct (map kf_at kfo)"
    unfolding kfo_def by (rule distinct_at_filter_sorted) (rule dist [unfolded ko])
  have "opacity_number kf = Num (op kf)" if "kf \<in> set kfo" for kf
    using nums that set_eq by (simp add: opacity_number_def)
  then have vals: "map opacity_number kfo = map Num (map op kfo)" by simp
  have strict: "sorted_wrt (<) (map kf_at kfo)"
    unfolding kfo_def using dist [unfolded ko] by (rule at_strict)
  have nostr: "\<forall>kf\<in>set keyframes. \<forall>s. style_get kf ''opacity'' \<noteq> Some (VStr s)"
  proof (intro ballI allI)
    fix kf s
    assume "kf \<in> set keyframes"
    show "style_get kf ''opacity'' \<noteq> Some (VStr s)"
    proof (cases "style_get kf ''opacity''")
      case None
      then show ?thesis by simp
    next
      case (Some x)
      with \<open>kf \<in> set keyframes\<close> have "kf \<in> set ko" by (simp add: ko)
      with nums show ?thesis by simp
    qed
  qed
  obtain st where st: "useAnimatedStyle ic (Some keyframes) duration t = Inr st"
    using useAnimatedStyle_succeeds [of duration keyframes ic t, OF d dist [unfolded ko] tdist nostr colors]
    by blast
  from opacity_sorted_value [OF d kfo_def two' dist' vals, of ic t]
  obtain v where u: "\<forall>st. useAnimatedStyle ic (Some keyframes) duration t = Inr st
           \<longrightarrow> map_of st ''opacity'' = Some (VNum v)"
    and left: "t \<le> kf_at (kfo ! 0) * duration \<longrightarrow> v = map op kfo ! 0"
    and right: "kf_at (kfo ! (length kfo - 1)) * duration \<le> t
        \<longrightarrow> v = map op kfo ! (length kfo - 1)"
    and mid: "\<forall>k. k + 1 < length kfo \<and> kf_at (kfo ! k) * duration \<le> t
             \<and> t \<le> kf_at (kfo ! (k + 1)) * duration
           \<longrightarrow> v = map op kfo ! k + (t - kf_at (kfo ! k) * duration)
                     * (map op kfo ! (k + 1) - map op kfo ! k)
                     / (kf_at (kfo ! (k + 1)) * duration - kf_at (kfo ! k) * duration)"
    by blast
  have pos: "0 < length kfo" using two' by linarith
  have first: "v = op a"
    if a: "a \<in> set ko" and least: "\<forall>b\<in>set ko. kf_at a \<le> kf_at b"
      and t: "t \<le> kf_at a * duration" for a
  proof -
    from a have "a \<in> set kfo" by (simp add: set_eq)
    then obtain i where i: "i < length kfo" "kfo ! i = a"
      by (auto simp: in_set_conv_nth)
    have "i = 0"
    proof (rule ccontr)
      assume "i \<noteq> 0"
      then have "kf_at (kfo ! 0) < kf_at (kfo ! i)"
        using strict_nth_less [OF strict, of 0 i] i(1) by simp
      moreover have "kfo ! 0 \<in> set ko" using pos set_eq nth_mem by blast
      ultimately show False using least i(2) by fastforce
    qed
    with i left t pos show ?thesis by simp
  qed
  have final: "v = op a"
    if a: "a \<in> set ko" and greatest: "\<forall>b\<in>set ko. kf_at b \<le> kf_at a"
      and t: "kf_at a * duration \<le> t" for a
  proof -
    from a have "a \<in> set kfo" by (simp add: set_eq)
    then obtain i where i: "i < length kfo" "kfo ! i = a"
      by (auto simp: in_set_conv_nth)
    have "i = length kfo - 1"
    proof (rule ccontr)
      assume "i \<noteq> length kfo - 1"
      with i(1) have "i < length kfo - 1" by simp
      then have "kf_at (kfo ! i) < kf_at (kfo ! (length kfo - 1))"
        using strict_nth_less [OF strict, of i "length kfo - 1"] pos by simp
      moreover have "kfo ! (length kfo - 1) \<in> set ko"
        using pos set_eq nth_mem [of "length kfo - 1" kfo] by simp
      ultimately show False using greatest i(2) by fastforce
    qed
    with i right t pos show ?thesis by simp
  qed
  have between: "v = op a + (t - kf_at a * duration) * (op b - op a)
                            / (kf_at b * duration - kf_at a * duration)"
    if a: "a \<in> set ko" and b: "b \<in> set ko" and ab: "kf_at a < kf_at b"
      and adj: "\<forall>c\<in>set ko. \<not> (kf_at a < kf_at c \<and> kf_at c < kf_at b)"
      and t: "kf_at a * duration \<le> t" "t \<le> kf_at b * duration" for a b
  proof -
    from a have "a \<in> set kfo" by (simp add: set_eq)
    then obtain i where i: "i < length kfo" "kfo ! i = a"
      by (auto simp: in_set_conv_nth)
    from b have "b \<in> set kfo" by (simp add: set_eq)
    then obtain j where j: "j < length kfo" "kfo ! j = b"
      by (auto simp: in_set_conv_nth)
    have ij: "i < j"
    proof (rule ccontr)
      assume "\<not> i < j"
      then consider "i = j" | "j < i" by linarith
      then show False
      proof cases
        case 1
        with i j ab show False by simp
      next
        case 2
        from strict_nth_less [OF strict 2 i(1)] i(2) j(2) ab show False by simp
      qed
    qed
    have "j = i + 1"
    proof (rule ccontr)
      assume "j \<noteq> i + 1"
      with ij have lt: "i < i + 1" "i + 1 < j" by simp_all
      from lt(2) j(1) have il: "i + 1 < length kfo" by simp
      have "kf_at a < kf_at (kfo ! (i + 1))"
        using strict_nth_less [OF strict lt(1) il] i(2) by simp
      moreover have "kf_at (kfo ! (i + 1)) < kf_at b"
        using strict_nth_less [OF strict lt(2) j(1)] j(2) by simp
      moreover have "kfo ! (i + 1) \<in> set ko" using il set_eq nth_mem by blast
      ultimately show False using adj by blast
    qed
    with i j t mid [rule_format, of i] show ?thesis by simp
  qed
  show ?thesis
  proof (intro exI [of _ st] exI [of _ v] conjI ballI impI)
    show "useAnimatedStyle ic (Some keyframes) duration t = Inr st" by (rule st)
    show "map_of st ''opacity'' = Some (VNum v)" using u st by blast
  next
    fix a
    assume "a \<in> set ko" "(\<forall>b\<in>set ko. kf_at a \<le> kf_at b) \<and> t \<le> kf_at a * duration"
    then show "v = op a" using first by blast
  next
    fix a
    assume "a \<in> set ko" "(\<forall>b\<in>set ko. kf_at b \<le> kf_at a) \<and> kf_at a * duration \<le> t"
    then show "v = op a" using final by blast
  next
    fix a b
    assume "a \<in> set ko" "b \<in> set ko"
      "kf_at a < kf_at b \<and> (\<forall>c\<in>set ko. \<not> (kf_at a < kf_at c \<and> kf_at c < kf_at b))
          \<and> kf_at a * duration \<le> t \<and> t \<le> kf_at b * duration"
    then show "v = op a + (t - kf_at a * duration) * (op b - op a)
                            / (kf_at b * duration - kf_at a * duration)"
      using between by blast
  qed
qed

theorem opacity_piecewise_linear_witness:
  "(\<exists>st. useAnimatedStyle no_colors (Some opacity_example_unsorted) 90 0 = Inr st
          \<and> map_of st ''opacity'' = Some (VNum 0))
   \<and> (\<exists>st. useAnimatedStyle no_colors (Some opacity_example_unsorted) 90 45 = Inr st
          \<and> map_of st ''opacity'' = Some (VNum (1 / 2)))
   \<and> (\<exists>st. useAnimatedStyle no_colors (Some opacity_example_unsorted) 90 90 = Inr st
          \<and> map_of st ''opacity'' = Some (VNum 1))"
proof -
  define ko where "ko = filter (\<lambda>kf. style_get kf ''opacity'' \<noteq> None) opacity_example_unsorted"
  have ko_eq: "ko = [\<lparr>kf_at = 0.8, kf_style = [(''opacity'', VNum 1)]\<rparr>,
                     \<lparr>kf_at = 0.2, kf_style = [(''opacity'', VNum 0)]\<rparr>]"
    by (simp add: ko_def opacity_example_unsorted_def style_get_def)
  have two: "2 \<le> length ko" by (simp add: ko_eq)
  have nums: "\<forall>kf\<in>set ko. style_get kf ''opacity'' = Some (VNum (stored_opacity kf))"
    by (simp add: ko_eq stored_opacity_def style_get_def)
  have dist: "distinct (map kf_at ko)" by (simp add: ko_eq)
  have tdist: "2 \<le> length (filter (\<lambda>kf. style_get kf ''transform'' \<noteq> None)
        opacity_example_unsorted)
      \<longrightarrow> distinct (map kf_at opacity_example_unsorted)"
    by (simp add: opacity_example_unsorted_def)
  have colors: "\<forall>p\<in>{''color'', ''backgroundColor''}.
        2 \<le> length (filter (\<lambda>kf. style_get kf p \<noteq> None) opacity_example_unsorted)
        \<longrightarrow> (\<forall>xs ys. \<exists>c. no_colors t xs ys = Inr c)" for t
    by (simp add: opacity_example_unsorted_def style_get_def)
  note th = opacity_piecewise_linear [of 90 ko opacity_example_unsorted
      stored_opacity no_colors, OF _ ko_def two nums dist tdist colors]
  have a: "\<exists>st. useAnimatedStyle no_colors (Some opacity_example_unsorted) 90 0 = Inr st
          \<and> map_of st ''opacity'' = Some (VNum 0)"
  proof -
    from th [of 0] obtain st v where
      st: "useAnimatedStyle no_colors (Some opacity_example_unsorted) 90 0 = Inr st"
        "map_of st ''opacity'' = Some (VNum v)"
      and v: "\<forall>a\<in>set ko. (\<forall>b\<in>set ko. kf_at a \<le> kf_at b) \<and> 0 \<le> kf_at a * 90
          \<longrightarrow> v = stored_opacity a"
      by auto
    from v have "v = 0"
      by (simp add: ko_eq stored_opacity_def style_get_def)
    with st show ?thesis by simp
  qed
  have b: "\<exists>st. useAnimatedStyle no_colors (Some opacity_example_unsorted) 90 45 = Inr st
          \<and> map_of st ''opacity'' = Some (VNum (1 / 2))"
  proof -
    from th [of 45] obtain st v where
      st: "useAnimatedStyle no_colors (Some opacity_example_unsorted) 90 45 = Inr st"
        "map_of st ''opacity'' = Some (VNum v)"
      and v: "\<forall>a\<in>set ko. \<forall>b\<in>set ko.
          kf_at a < kf_at b
          \<and> (\<forall>c\<in>set ko. \<not> (kf_at a < kf_at c \<and> kf_at c < kf_at b))
          \<and> kf_at a * 90 \<le> 45 \<and> 45 \<le> kf_at b * 90
          \<longrightarrow> v = stored_opacity a + (45 - kf_at a * 90) * (stored_opacity b - stored_opacity a)
                            / (kf_at b * 90 - kf_at a * 90)"
      by auto
    from v have "v = 1 / 2"
      by (simp add: ko_eq stored_opacity_def style_get_def)
    with st show ?thesis by simp
  qed
  have c: "\<exists>st. useAnimatedStyle no_colors (Some opacity_example_unsorted) 90 90 = Inr st
          \<and> map_of st ''opacity'' = Some (VNum 1)"
  proof -
    from th [of 90] obtain st v where
      st: "useAnimatedStyle no_colors (Some opacity_example_unsorted) 90 90 = Inr st"
        "map_of st ''opacity'' = Some (VNum v)"
      and v: "\<forall>a\<in>set ko. (\<forall>b\<in>set ko. kf_at b \<le> kf_at a) \<and> kf_at a * 90 \<le> 90
          \<longrightarrow> v = stored_opacity a"
      by auto
    from v have "v = 1"
      by (simp add: ko_eq stored_opacity_def style_get_def)
    with st show ?thesis by simp
  qed
  from a b c show ?thesis by blast
qed

section \<open>Step selection\<close>






section \<open>Transform channels\<close>

text \<open>
  C2. Let the keyframes of an element, in whatever order they are stored, lie at pairwise
  different positions, at least two of them with a \<open>transform\<close>, let the duration be
  positive, and let \<open>sk\<close> list them by increasing position (no opacity is a string, and
  a colour animated by the same element is assumed to interpolate without an error).
  Then \<open>useAnimatedStyle\<close> returns a style at every frame \<open>t\<close>, and when \<open>t\<close> lies
  between the positions \<open>at * duration\<close> of two consecutive keyframes of \<open>sk\<close>, whether
  they have a transform or not, the transform stored in that style is, for every function
  named in some keyframe, in the order of first mention and joined by spaces, the name
  applied to the value on the line between the channel's values at the two keyframes,
  followed by the channel's unit. The values of a channel, one for each keyframe of
  \<open>sk\<close>, are: the value written by the keyframe when it names the function; the value
  of the keyframe before when it does not; and for the first keyframe when it does not
  name the function, 1 for a name containing \<open>scale\<close> and 0 otherwise. With the default
  unit \<open>deg\<close> for a name containing \<open>rotate\<close>, \<open>px\<close> for one containing
  \<open>translate\<close> and empty otherwise, the unit of a channel is the default unit when
  every unit written for it is the default unit, and otherwise the first unit written for
  it that is not. For the keyframes \<open>translateX(0px) scale(1)\<close> at 0 and
  \<open>translateX(100px)\<close> at 1 the transform at the halfway frame is
  \<open>translateX(50px) scale(1)\<close>.
\<close>

theorem transform_channel_rule:
  assumes d: "0 < d"
    and dist: "distinct (map kf_at keyframes)"
    and two: "2 \<le> length (filter (\<lambda>kf. style_get kf ''transform'' \<noteq> None) keyframes)"
    and opac: "\<forall>kf\<in>set keyframes. \<forall>s. style_get kf ''opacity'' \<noteq> Some (VStr s)"
    and colors: "\<forall>p\<in>{''color'', ''backgroundColor''}.
        2 \<le> length (filter (\<lambda>kf. style_get kf p \<noteq> None) keyframes)
        \<longrightarrow> (\<forall>xs ys. \<exists>c. ic t xs ys = Inr c)"
    and chron: "set sk = set keyframes" "sorted_wrt (<) (map kf_at sk)"
  shows "\<exists>st. useAnimatedStyle ic (Some keyframes) d t = Inr st
    \<and> (\<forall>k. k + 1 < length sk \<and> kf_at (sk ! k) * d \<le> t \<and> t \<le> kf_at (sk ! (k + 1)) * d
          \<longrightarrow> map_of st ''transform'' =
                Some (VStr (join_with '' ''
                  (map (\<lambda>func. func @ ''('' @ number_to_string
                          (channel_values func sk ! k
                           + (t - kf_at (sk ! k) * d)
                             * (channel_values func sk ! (k + 1) - channel_values func sk ! k)
                             / (kf_at (sk ! (k + 1)) * d - kf_at (sk ! k) * d))
                        @ printed_unit func sk @ '')'')
                     (channels_in_order sk)))))
    \<and> (\<forall>func. length (channel_values func sk) = length sk)
    \<and> (\<forall>func k v. k < length sk \<and> channel_value (sk ! k) func = Some v
          \<longrightarrow> v = Num (channel_values func sk ! k))
    \<and> (\<forall>func k. k + 1 < length sk \<and> channel_value (sk ! (k + 1)) func = None
          \<longrightarrow> channel_values func sk ! (k + 1) = channel_values func sk ! k)
    \<and> (\<forall>func. channel_value (sk ! 0) func = None
          \<longrightarrow> channel_values func sk ! 0 = (if string_includes func ''scale'' then 1 else 0))
    \<and> (\<forall>func. (\<forall>k<length sk. \<forall>u. channel_unit (sk ! k) func = Some u
                   \<longrightarrow> u = (if string_includes func ''rotate'' then ''deg''
                            else if string_includes func ''translate'' then ''px'' else ''''))
          \<longrightarrow> printed_unit func sk =
                (if string_includes func ''rotate'' then ''deg''
                 else if string_includes func ''translate'' then ''px'' else ''''))
    \<and> (\<forall>func k u. k < length sk \<and> channel_unit (sk ! k) func = Some u
          \<and> u \<noteq> (if string_includes func ''rotate'' then ''deg''
                   else if string_includes func ''translate'' then ''px'' else '''')
          \<and> (\<forall>j<k. \<forall>u'. channel_unit (sk ! j) func = Some u'
                 \<longrightarrow> u' = (if string_includes func ''rotate'' then ''deg''
                           else if string_includes func ''translate'' then ''px'' else ''''))
          \<longrightarrow> printed_unit func sk = u)
    \<and> useAnimatedStyle no_colors (Some transform_example) 90 45
         = Inr [(''transform'', VStr ''translateX(50px) scale(1)'')]"
proof -
  have sk: "sk = sort_key kf_at keyframes"
    using dist chron by (rule chronological_unique)
  define kft where "kft = filter (\<lambda>kf. style_get kf ''transform'' \<noteq> None) sk"
  have two': "2 \<le> length kft"
    using two by (simp add: kft_def sk length_filter_sorted)
  have n2: "2 \<le> length sk" using two' unfolding kft_def by (rule filter_length_le2)
  have ne: "sk \<noteq> []" using n2 by auto
  have s: "sorted_wrt (<) (map (\<lambda>kf. kf_at kf * d) sk)"
    unfolding sk using d dist by (rule positions_strict_all)
  have od: "distinct (map kf_at (filter (\<lambda>kf. style_get kf ''opacity'' \<noteq> None) keyframes))"
    using dist by (rule distinct_map_filter)
  have td: "2 \<le> length (filter (\<lambda>kf. style_get kf ''transform'' \<noteq> None) keyframes)
      \<longrightarrow> distinct (map kf_at keyframes)"
    using dist by simp
  obtain st where st: "useAnimatedStyle ic (Some keyframes) d t = Inr st"
    using useAnimatedStyle_succeeds [of d keyframes ic t, OF d od td opac colors] by blast
  from two' obtain kf where "kf \<in> set kft" by (cases kft) auto
  then have kf: "kf \<in> set keyframes" "style_get kf ''transform'' \<noteq> None"
    by (auto simp: kft_def sk)
  have lookup: "resolve_property ic t d sk ''transform'' = Inr (map_of st ''transform'')"
    unfolding sk by (rule useAnimatedStyle_lookup [OF st kf])
  have funcs: "allFuncs kft = channels_in_order sk"
    unfolding kft_def allFuncs_unfiltered by (rule allFuncs_in_order)
  have rp: "resolve_property ic t d sk ''transform'' =
       (case transform_terms t d sk (channels_in_order sk) of
          Inl e \<Rightarrow> Inl e
        | Inr finalTransforms \<Rightarrow> Inr (Some (VStr (join_with '' '' finalTransforms))))"
    by (simp add: resolve_property_many [OF kft_def two'] funcs)
  have seg: "map_of st ''transform'' =
                Some (VStr (join_with '' ''
                  (map (\<lambda>func. func @ ''('' @ number_to_string
                          (channel_values func sk ! k
                           + (t - kf_at (sk ! k) * d)
                             * (channel_values func sk ! (k + 1) - channel_values func sk ! k)
                             / (kf_at (sk ! (k + 1)) * d - kf_at (sk ! k) * d))
                        @ printed_unit func sk @ '')'')
                     (channels_in_order sk))))"
    if k: "k + 1 < length sk" "kf_at (sk ! k) * d \<le> t" "t \<le> kf_at (sk ! (k + 1)) * d" for k
  proof -
    have "Inr (map_of st ''transform'') =
        (Inr (Some (VStr (join_with '' ''
                  (map (\<lambda>func. func @ ''('' @ number_to_string
                          (channel_values func sk ! k
                           + (t - kf_at (sk ! k) * d)
                             * (channel_values func sk ! (k + 1) - channel_values func sk ! k)
                             / (kf_at (sk ! (k + 1)) * d - kf_at (sk ! k) * d))
                        @ printed_unit func sk @ '')'')
                     (channels_in_order sk))))) :: error + cssval option)"
      unfolding lookup [symmetric] rp transform_terms_segment [OF s k] by simp
    then show ?thesis by (simp only: sum.inject)
  qed
  have du: "defaultUnit func = (if string_includes func ''rotate'' then ''deg''
                           else if string_includes func ''translate'' then ''px'' else '''')"
    for func by (simp add: defaultUnit_def)
  have unit_default: "printed_unit func sk = defaultUnit func"
    if "\<forall>k<length sk. \<forall>u. channel_unit (sk ! k) func = Some u \<longrightarrow> u = defaultUnit func"
    for func
    by (rule printed_unit_default) (use that in \<open>auto simp: in_set_conv_nth\<close>)
  have ex: "useAnimatedStyle no_colors (Some transform_example) 90 45
         = Inr [(''transform'', VStr ''translateX(50px) scale(1)'')]"
    by code_simp
  show ?thesis
  proof (intro exI [of _ st] conjI allI impI)
    show "useAnimatedStyle ic (Some keyframes) d t = Inr st" by (rule st)
  next
    fix k
    assume "k + 1 < length sk \<and> kf_at (sk ! k) * d \<le> t \<and> t \<le> kf_at (sk ! (k + 1)) * d"
    then show "map_of st ''transform'' =
                Some (VStr (join_with '' ''
                  (map (\<lambda>func. func @ ''('' @ number_to_string
                          (channel_values func sk ! k
                           + (t - kf_at (sk ! k) * d)
                             * (channel_values func sk ! (k + 1) - channel_values func sk ! k)
                             / (kf_at (sk ! (k + 1)) * d - kf_at (sk ! k) * d))
                        @ printed_unit func sk @ '')'')
                     (channels_in_order sk))))"
      using seg by blast
  next
    fix func
    show "length (channel_values func sk) = length sk" by (rule length_channel_values)
  next
    fix func k v
    assume "k < length sk \<and> channel_value (sk ! k) func = Some v"
    then show "v = Num (channel_values func sk ! k)"
      using channel_values_written by blast
  next
    fix func k
    assume "k + 1 < length sk \<and> channel_value (sk ! (k + 1)) func = None"
    then show "channel_values func sk ! (k + 1) = channel_values func sk ! k"
      using channel_values_kept by blast
  next
    fix func
    assume "channel_value (sk ! 0) func = None"
    with ne show "channel_values func sk ! 0 = (if string_includes func ''scale'' then 1 else 0)"
      by (rule channel_values_default)
  next
    fix func
    assume "\<forall>k<length sk. \<forall>u. channel_unit (sk ! k) func = Some u
                   \<longrightarrow> u = (if string_includes func ''rotate'' then ''deg''
                            else if string_includes func ''translate'' then ''px'' else '''')"
    then show "printed_unit func sk =
                (if string_includes func ''rotate'' then ''deg''
                 else if string_includes func ''translate'' then ''px'' else '''')"
      using unit_default [of func] unfolding du by blast
  next
    fix func k u
    assume "k < length sk \<and> channel_unit (sk ! k) func = Some u
          \<and> u \<noteq> (if string_includes func ''rotate'' then ''deg''
                   else if string_includes func ''translate'' then ''px'' else '''')
          \<and> (\<forall>j<k. \<forall>u'. channel_unit (sk ! j) func = Some u'
                 \<longrightarrow> u' = (if string_includes func ''rotate'' then ''deg''
                           else if string_includes func ''translate'' then ''px'' else ''''))"
    then show "printed_unit func sk = u"
      using printed_unit_nth [of k sk func u] unfolding du by blast
  next
    show "useAnimatedStyle no_colors (Some transform_example) 90 45
         = Inr [(''transform'', VStr ''translateX(50px) scale(1)'')]" by (rule ex)
  qed
qed

theorem transform_channel_rule_witness:
  "(\<exists>st. useAnimatedStyle no_colors (Some transform_example_unsorted) 90 45 = Inr st
         \<and> map_of st ''transform'' = Some (VStr ''translateX(50px) scale(1)''))
   \<and> (\<exists>st. useAnimatedStyle no_colors (Some transform_example_held) 90 45 = Inr st
         \<and> map_of st ''transform'' = Some (VStr ''translateX(0px) scale(1)''))"
proof -
  have dist: "distinct (map kf_at transform_example_unsorted)"
    by (simp add: transform_example_unsorted_def)
  have two: "2 \<le> length (filter (\<lambda>kf. style_get kf ''transform'' \<noteq> None)
      transform_example_unsorted)"
    by (simp add: transform_example_unsorted_def style_get_def)
  have opac: "\<forall>kf\<in>set transform_example_unsorted. \<forall>s. style_get kf ''opacity'' \<noteq> Some (VStr s)"
    by (simp add: transform_example_unsorted_def style_get_def)
  have colors: "\<forall>p\<in>{''color'', ''backgroundColor''}.
        2 \<le> length (filter (\<lambda>kf. style_get kf p \<noteq> None) transform_example_unsorted)
        \<longrightarrow> (\<forall>xs ys. \<exists>c. no_colors 45 xs ys = Inr c)"
    by (simp add: transform_example_unsorted_def style_get_def)
  have chron: "set transform_example = set transform_example_unsorted"
    "sorted_wrt (<) (map kf_at transform_example)"
    by (auto simp: transform_example_def transform_example_unsorted_def)
  have bracket: "0 + 1 < length transform_example \<and> kf_at (transform_example ! 0) * 90 \<le> 45
      \<and> 45 \<le> kf_at (transform_example ! (0 + 1)) * 90"
    by (simp add: transform_example_def)
  have val: "join_with '' ''
      (map (\<lambda>func. func @ ''('' @ number_to_string
              (channel_values func transform_example ! 0
               + (45 - kf_at (transform_example ! 0) * 90)
                 * (channel_values func transform_example ! (0 + 1)
                    - channel_values func transform_example ! 0)
                 / (kf_at (transform_example ! (0 + 1)) * 90 - kf_at (transform_example ! 0) * 90))
            @ printed_unit func transform_example @ '')'')
         (channels_in_order transform_example))
      = ''translateX(50px) scale(1)''"
    by code_simp
  have a: "\<exists>st. useAnimatedStyle no_colors (Some transform_example_unsorted) 90 45 = Inr st
         \<and> map_of st ''transform'' = Some (VStr ''translateX(50px) scale(1)'')"
  proof -
    from transform_channel_rule [of 90 transform_example_unsorted no_colors 45 transform_example,
        OF _ dist two opac colors chron]
    obtain st where st: "useAnimatedStyle no_colors (Some transform_example_unsorted) 90 45 = Inr st"
      and seg: "\<forall>k. k + 1 < length transform_example \<and> kf_at (transform_example ! k) * 90 \<le> 45
            \<and> 45 \<le> kf_at (transform_example ! (k + 1)) * 90
            \<longrightarrow> map_of st ''transform'' =
                  Some (VStr (join_with '' ''
                    (map (\<lambda>func. func @ ''('' @ number_to_string
                            (channel_values func transform_example ! k
                             + (45 - kf_at (transform_example ! k) * 90)
                               * (channel_values func transform_example ! (k + 1)
                                  - channel_values func transform_example ! k)
                               / (kf_at (transform_example ! (k + 1)) * 90
                                  - kf_at (transform_example ! k) * 90))
                          @ printed_unit func transform_example @ '')'')
                       (channels_in_order transform_example))))"
      by auto
    from seg [rule_format, OF bracket]
    have "map_of st ''transform'' = Some (VStr ''translateX(50px) scale(1)'')"
      unfolding val .
    with st show ?thesis by blast
  qed
  have dist': "distinct (map kf_at transform_example_held)"
    by (simp add: transform_example_held_def)
  have two': "2 \<le> length (filter (\<lambda>kf. style_get kf ''transform'' \<noteq> None)
      transform_example_held)"
    by (simp add: transform_example_held_def style_get_def)
  have opac': "\<forall>kf\<in>set transform_example_held. \<forall>s. style_get kf ''opacity'' \<noteq> Some (VStr s)"
    by (simp add: transform_example_held_def style_get_def)
  have colors': "\<forall>p\<in>{''color'', ''backgroundColor''}.
        2 \<le> length (filter (\<lambda>kf. style_get kf p \<noteq> None) transform_example_held)
        \<longrightarrow> (\<forall>xs ys. \<exists>c. no_colors 45 xs ys = Inr c)"
    by (simp add: transform_example_held_def style_get_def)
  have chron': "set (rev transform_example_held) = set transform_example_held"
    "sorted_wrt (<) (map kf_at (rev transform_example_held))"
    by (auto simp: transform_example_held_def)
  have bracket': "0 + 1 < length (rev transform_example_held)
      \<and> kf_at (rev transform_example_held ! 0) * 90 \<le> 45
      \<and> 45 \<le> kf_at (rev transform_example_held ! (0 + 1)) * 90"
    by (simp add: transform_example_held_def)
  have val': "join_with '' ''
      (map (\<lambda>func. func @ ''('' @ number_to_string
              (channel_values func (rev transform_example_held) ! 0
               + (45 - kf_at (rev transform_example_held ! 0) * 90)
                 * (channel_values func (rev transform_example_held) ! (0 + 1)
                    - channel_values func (rev transform_example_held) ! 0)
                 / (kf_at (rev transform_example_held ! (0 + 1)) * 90
                    - kf_at (rev transform_example_held ! 0) * 90))
            @ printed_unit func (rev transform_example_held) @ '')'')
         (channels_in_order (rev transform_example_held)))
      = ''translateX(0px) scale(1)''"
    by code_simp
  have b: "\<exists>st. useAnimatedStyle no_colors (Some transform_example_held) 90 45 = Inr st
         \<and> map_of st ''transform'' = Some (VStr ''translateX(0px) scale(1)'')"
  proof -
    from transform_channel_rule [of 90 transform_example_held no_colors 45
        "rev transform_example_held", OF _ dist' two' opac' colors' chron']
    obtain st where st: "useAnimatedStyle no_colors (Some transform_example_held) 90 45 = Inr st"
      and seg: "\<forall>k. k + 1 < length (rev transform_example_held)
            \<and> kf_at (rev transform_example_held ! k) * 90 \<le> 45
            \<and> 45 \<le> kf_at (rev transform_example_held ! (k + 1)) * 90
            \<longrightarrow> map_of st ''transform'' =
                  Some (VStr (join_with '' ''
                    (map (\<lambda>func. func @ ''('' @ number_to_string
                            (channel_values func (rev transform_example_held) ! k
                             + (45 - kf_at (rev transform_example_held ! k) * 90)
                               * (channel_values func (rev transform_example_held) ! (k + 1)
                                  - channel_values func (rev transform_example_held) ! k)
                               / (kf_at (rev transform_example_held ! (k + 1)) * 90
                                  - kf_at (rev transform_example_held ! k) * 90))
                          @ printed_unit func (rev transform_example_held) @ '')'')
                       (channels_in_order (rev transform_example_held)))))"
      by auto
    from seg [rule_format, OF bracket']
    have "map_of st ''transform'' = Some (VStr ''translateX(0px) scale(1)'')"
      unfolding val' .
    with st show ?thesis by blast
  qed
  from a b show ?thesis by blast
qed

section \<open>Extrapolation of transform channels\<close>





section \<open>The opacity schedule of a scene\<close>

lemma interpolate_two:
  "a < b \<Longrightarrow> interpolate t [a, b] [Num u, Num v] l r =
     Inr (interpolateFunction t (a, b) (u, v) l r)"
  by (simp add: interpolate_def findRange_def)

text \<open>
  C3. With a positive transition duration, the opacity of a scene at its local frame
  \<open>f\<close> is: 1 at every frame for a scene that is both first and last; for the first of
  several scenes 1 up to \<open>sd\<close>, then the linear fade from 1 to 0 over
  \<open>[sd, sd + td]\<close>, and 0 after it; for the last of several scenes 0 up to frame 0,
  the linear fade from 0 to 1 over \<open>[0, td]\<close>, and 1 after it; for an interior scene
  the minimum of the fade-in ramp and the fade-out ramp, which never exceeds 1.
\<close>

theorem scene_opacity_schedule:
  assumes "0 < td"
  shows "scene_opacity True True sd td f = Inr 1
    \<and> scene_opacity True False sd td f =
        Inr (if f \<le> sd then 1 else if sd + td \<le> f then 0 else 1 - (f - sd) / td)
    \<and> scene_opacity False True sd td f =
        Inr (if f \<le> 0 then 0 else if td \<le> f then 1 else f / td)
    \<and> scene_opacity False False sd td f =
        Inr (min (if td \<le> f then 1 else f / td) (if f \<le> sd then 1 else 1 - (f - sd) / td))
    \<and> (0 \<le> f \<and> f \<le> sd + td \<longrightarrow>
        scene_opacity False False sd td f =
          Inr (min (if f \<le> 0 then 0 else if td \<le> f then 1 else f / td)
                   (if f \<le> sd then 1 else if sd + td \<le> f then 0 else 1 - (f - sd) / td)))
    \<and> (\<exists>v. scene_opacity False False sd td f = Inr v \<and> v \<le> 1)"
proof -
  have lt: "sd < sd + td" using assms by simp
  have c1: "scene_opacity True True sd td f = Inr 1"
    by (simp add: scene_opacity_def)
  have c2: "scene_opacity True False sd td f =
        Inr (if f \<le> sd then 1 else if sd + td \<le> f then 0 else 1 - (f - sd) / td)"
    using assms by (auto simp: scene_opacity_def interpolate_two [OF lt] interpolateFunction_def Let_def field_simps)
  have c3: "scene_opacity False True sd td f =
        Inr (if f \<le> 0 then 0 else if td \<le> f then 1 else f / td)"
    using assms by (auto simp: scene_opacity_def interpolate_two [OF assms] interpolateFunction_def Let_def field_simps)
  have c4: "scene_opacity False False sd td f =
        Inr (min (if td \<le> f then 1 else f / td) (if f \<le> sd then 1 else 1 - (f - sd) / td))"
    using assms by (auto simp: scene_opacity_def interpolate_two [OF assms] interpolate_two [OF lt]
        interpolateFunction_def Let_def field_simps)
  have c5: "0 \<le> f \<and> f \<le> sd + td \<longrightarrow>
        scene_opacity False False sd td f =
          Inr (min (if f \<le> 0 then 0 else if td \<le> f then 1 else f / td)
                   (if f \<le> sd then 1 else if sd + td \<le> f then 0 else 1 - (f - sd) / td))"
    unfolding c4 using assms by (auto simp: field_simps)
  have c6: "\<exists>v. scene_opacity False False sd td f = Inr v \<and> v \<le> 1"
    unfolding c4 using assms by (auto simp: min_def field_simps)
  from c1 c2 c3 c4 c5 c6 show ?thesis by blast
qed

theorem scene_opacity_schedule_witness:
  "(0::real) < 30
   \<and> scene_opacity True False 90 30 105 = Inr (1 / 2)
   \<and> scene_opacity False True 90 30 10 = Inr (1 / 3)
   \<and> scene_opacity False False 90 30 110 = Inr (1 / 3)"
  using scene_opacity_schedule [of 30 90 105] scene_opacity_schedule [of 30 90 10]
    scene_opacity_schedule [of 30 90 110]
  by simp
section \<open>An empty animated transform\<close>








section \<open>Opacity given as a string\<close>

text \<open>
  C4. Two opacity keyframes, the first with the string \<open>abc\<close>: the output range handed
  to \<open>interpolate\<close> holds \<open>NaN\<close>, no default takes its place, and resolving the style
  ends in the error of \<open>interpolate\<close>. With that keyframe alone the string is returned
  as it is.
\<close>

theorem opacity_string_not_coerced:
  "map opacity_number bad_opacity_example = [NaN, Num 1]
   \<and> useAnimatedStyle ic (Some bad_opacity_example) 90 45 = Inl RangeNotFinite
   \<and> useAnimatedStyle ic (Some [bad_opacity_example ! 0]) 90 45
        = Inr [(''opacity'', VStr ''abc'')]"
proof -
  have a: "map opacity_number bad_opacity_example = [NaN, Num 1]" by code_simp
  have sk: "sort_key kf_at bad_opacity_example = bad_opacity_example"
    by (simp add: bad_opacity_example_def)
  have kfo: "bad_opacity_example =
      filter (\<lambda>kf. style_get kf ''opacity'' \<noteq> None) (sort_key kf_at bad_opacity_example)"
    by (simp add: bad_opacity_example_def style_get_def)
  have two: "2 \<le> length bad_opacity_example" by (simp add: bad_opacity_example_def)
  have pr: "properties_of bad_opacity_example = [''opacity'']" by code_simp
  have rp: "resolve_property ic 45 90 (sort_key kf_at bad_opacity_example) ''opacity''
      = Inl RangeNotFinite"
    unfolding resolve_property_many [OF kfo two] a
    by (simp add: interpolate_def bad_opacity_example_def)
  have rp': "resolve_property ic 45 90 bad_opacity_example ''opacity'' = Inl RangeNotFinite"
    using rp unfolding sk .
  have ne: "\<not> length bad_opacity_example < 1" by (simp add: bad_opacity_example_def)
  have b: "useAnimatedStyle ic (Some bad_opacity_example) 90 45 = Inl RangeNotFinite"
    using ne by (simp add: useAnimatedStyle_def Let_def sk pr rp')
  have pr1: "properties_of [bad_opacity_example ! 0] = [''opacity'']" by code_simp
  have c: "useAnimatedStyle ic (Some [bad_opacity_example ! 0]) 90 45
        = Inr [(''opacity'', VStr ''abc'')]"
    by (simp add: useAnimatedStyle_def Let_def pr1 resolve_property_def)
       (simp add: bad_opacity_example_def style_get_def)
  from a b c show ?thesis by simp
qed

section \<open>The placeholder\<close>

text \<open>
  C8. A video result whose scenes are missing or empty is drawn, at every frame and
  whatever the colour interpolation and the reported duration are, as the placeholder:
  the message that the animation data is missing, in white on black. The result is not
  an error and holds no scene.
\<close>

theorem empty_scenes_placeholder:
  assumes "scenes videoResult = None \<or> scenes videoResult = Some []"
  shows "Animation ic durationInFrames videoResult frame =
     Inr (Placeholder
            [(''backgroundColor'', VStr ''black''), (''justifyContent'', VStr ''center''),
             (''alignItems'', VStr ''center''), (''color'', VStr ''white''),
             (''fontSize'', VNum 24)]
            ''Animation data is missing or invalid.'')"
  using assms by (auto simp: Animation_def)

theorem empty_scenes_placeholder_witness:
  "scenes no_scenes = Some []
   \<and> Animation no_colors 90 no_scenes 0 =
     Inr (Placeholder
            [(''backgroundColor'', VStr ''black''), (''justifyContent'', VStr ''center''),
             (''alignItems'', VStr ''center''), (''color'', VStr ''white''),
             (''fontSize'', VNum 24)]
            ''Animation data is missing or invalid.'')"
proof -
  have s: "scenes no_scenes = Some []" by (simp add: no_scenes_def)
  then have "scenes no_scenes = None \<or> scenes no_scenes = Some []" by simp
  from empty_scenes_placeholder [OF this, of no_colors 90 0] s show ?thesis by simp
qed

section \<open>The background effect\<close>

lemma getKenBurnsEffect_eq:
  "dur \<noteq> 0 \<Longrightarrow> getKenBurnsEffect frame dur index = Inr (ken_burns_of_progress (frame / dur) index)"
  by (simp add: getKenBurnsEffect_def js_divide_def interpolate_def findRange_def
      interpolateFunction_def ken_burns_of_progress_def Let_def even_iff_mod_2_eq_zero algebra_simps)

text \<open>
  C7 as stated fails. In a composition of three scenes, 300 frames long, at frame 90 of
  the master timeline the overall progress is 90 / 300, for which an odd scene would
  show \<open>scale(1.07) rotate(0.4deg)\<close>; scene 1 starts at that frame and shows the start
  of its range, \<open>scale(1.1) rotate(1deg)\<close>, whether the reported duration is that of
  the composition (300) or that of the scene's window (120).
\<close>

theorem ken_burns_master_progress_counterexample:
  "map_option rs_image (rendered_scene_at (Animation no_colors 300 three_scenes 90) 1)
      = Some (Some (''bg.png'', ''scale(1.1) rotate(1deg)''))
   \<and> map_option rs_image (rendered_scene_at (Animation no_colors 120 three_scenes 90) 1)
      = Some (Some (''bg.png'', ''scale(1.1) rotate(1deg)''))
   \<and> ken_burns_of_progress (90 / 300) 1 = ''scale(1.07) rotate(0.4deg)''
   \<and> map_option rs_image (rendered_scene_at (Animation no_colors 300 three_scenes 90) 1)
      \<noteq> Some (Some (''bg.png'', ken_burns_of_progress (90 / 300) 1))"
  by code_simp

text \<open>
  C7, amended. With a positive reported duration, the background effect is the stated
  function of parity and of the progress \<open>frame / durationInFrames\<close>, where the frame is
  the scene's local frame: in a composition, the transform of the image of the scene
  with a given index at frame \<open>F\<close> of the master timeline is that function at the
  progress \<open>(F - index * 90) / durationInFrames\<close>, whatever the scenes and their camera
  keyframes are. At progress 0 an even scene shows scale 1 and -1 degree and an odd scene
  scale 1.1 and 1 degree; at progress 1 it is the other way round.
\<close>

theorem ken_burns_local_progress:
  assumes "0 < durationInFrames"
  shows "getKenBurnsEffect frame durationInFrames index
           = Inr (ken_burns_of_progress (frame / durationInFrames) index)
    \<and> (\<forall>ic videoResult F out r u T.
          Animation ic durationInFrames videoResult F = Inr out
          \<and> rendered_scene_at (Inr out) index = Some r \<and> rs_image r = Some (u, T)
          \<longrightarrow> T = ken_burns_of_progress
                    ((F - real index * DURATION_PER_SCENE) / durationInFrames) index)
    \<and> ken_burns_of_progress 0 index
         = (if even index then ''scale(1) rotate(-1deg)'' else ''scale(1.1) rotate(1deg)'')
    \<and> ken_burns_of_progress 1 index
         = (if even index then ''scale(1.1) rotate(1deg)'' else ''scale(1) rotate(-1deg)'')"
proof -
  from assms have nz: "durationInFrames \<noteq> 0" by simp
  have a: "getKenBurnsEffect frame durationInFrames index
           = Inr (ken_burns_of_progress (frame / durationInFrames) index)" for frame
    using nz by (rule getKenBurnsEffect_eq)
  have b: "T = ken_burns_of_progress
                    ((F - real index * DURATION_PER_SCENE) / durationInFrames) index"
    if "Animation ic durationInFrames videoResult F = Inr out"
      "rendered_scene_at (Inr out) index = Some r" "rs_image r = Some (u, T)"
    for ic videoResult F out r u T
  proof -
    from rendered_scene_at_member [OF that(1,2)] obtain scene and ss :: "Scene list" where
      "SceneComponent ic scene (index = 0) (index = length ss - 1)
              DURATION_PER_SCENE TRANSITION_DURATION index
              (F - real index * DURATION_PER_SCENE) durationInFrames = Inr r" by blast
    from SceneComponent_fields(3) [OF this that(3)] show ?thesis by (simp add: a)
  qed
  have n1: "number_to_string 1 = ''1''" "number_to_string (- 1) = ''-1''"
    "number_to_string 1.1 = ''1.1''" "number_to_string (11 / 10) = ''1.1''"
    by code_simp+
  have c: "ken_burns_of_progress 0 index
         = (if even index then ''scale(1) rotate(-1deg)'' else ''scale(1.1) rotate(1deg)'')"
    by (simp add: ken_burns_of_progress_def n1)
  have e: "ken_burns_of_progress 1 index
         = (if even index then ''scale(1.1) rotate(1deg)'' else ''scale(1) rotate(-1deg)'')"
    by (simp add: ken_burns_of_progress_def n1)
  from a b c e show ?thesis by blast
qed

theorem ken_burns_local_progress_witness:
  "(0::real) < 300
   \<and> getKenBurnsEffect 0 300 1 = Inr ''scale(1.1) rotate(1deg)''
   \<and> getKenBurnsEffect 150 300 2 = Inr ''scale(1.05) rotate(0deg)''"
proof -
  have p: "ken_burns_of_progress (0 / 300) 1 = ''scale(1.1) rotate(1deg)''"
    "ken_burns_of_progress (150 / 300) 2 = ''scale(1.05) rotate(0deg)''"
    by code_simp+
  have h: "(0::real) < 300" by simp
  from ken_burns_local_progress [OF h, of 0 1] ken_burns_local_progress [OF h, of 150 2] p
  show ?thesis by simp
qed

section \<open>The crossfade of two scenes\<close>

text \<open>
  C6 as stated fails. In a composition of three scenes, at frame 90 of the master
  timeline, where the 90 frames of scene 0 end and the window of scene 1 begins, scene 0
  is drawn with opacity 1 and scene 1 with opacity 0.
\<close>

theorem boundary_opacities_counterexample:
  "map_option rs_opacity (rendered_scene_at (Animation no_colors 300 three_scenes 90) 0) = Some 1
   \<and> map_option rs_opacity (rendered_scene_at (Animation no_colors 300 three_scenes 90) 1) = Some 0
   \<and> map_option rs_opacity (rendered_scene_at (Animation no_colors 300 three_scenes 90) 0)
      \<noteq> map_option rs_opacity (rendered_scene_at (Animation no_colors 300 three_scenes 90) 1)"
  by code_simp

text \<open>
  C6, amended. In a composition of three scenes, at a frame \<open>F\<close> of the master timeline
  in the overlap of scenes 0 and 1, from 90 up to 120, scene 0 is drawn with opacity
  \<open>1 - (F - 90) / 30\<close> and scene 1 with opacity \<open>(F - 90) / 30\<close>: the two add up to 1,
  and they are equal at frame 105 only, the middle of the overlap, where both are 1/2.
\<close>

theorem crossfade_opacities:
  assumes three: "scenes videoResult = Some [a, b, c]"
    and lo: "90 \<le> F" and hi: "F < 120"
    and ok: "Animation ic durationInFrames videoResult F = Inr out"
  shows "map_option rs_opacity (rendered_scene_at (Inr out) 0) = Some (1 - (F - 90) / 30)
    \<and> map_option rs_opacity (rendered_scene_at (Inr out) 1) = Some ((F - 90) / 30)
    \<and> (map_option rs_opacity (rendered_scene_at (Inr out) 0)
         = map_option rs_opacity (rendered_scene_at (Inr out) 1) \<longleftrightarrow> F = 105)"
proof -
  have len: "length [a, b, c] - 1 = 2" by simp
  have w0: "real 0 * DURATION_PER_SCENE \<le> F"
    "F < real 0 * DURATION_PER_SCENE + (DURATION_PER_SCENE + TRANSITION_DURATION)"
    using lo hi by (simp_all add: DURATION_PER_SCENE_def TRANSITION_DURATION_def)
  have w1: "real 1 * DURATION_PER_SCENE \<le> F"
    "F < real 1 * DURATION_PER_SCENE + (DURATION_PER_SCENE + TRANSITION_DURATION)"
    using lo hi by (simp_all add: DURATION_PER_SCENE_def TRANSITION_DURATION_def)
  from rendered_scene_at_active [OF ok three _ w0] obtain r0 where
    a0: "rendered_scene_at (Inr out) 0 = Some r0" by auto
  from rendered_scene_at_active [OF ok three _ w1] obtain r1 where
    a1: "rendered_scene_at (Inr out) 1 = Some r1" by auto
  from rendered_scene_at_member [OF ok a0] three obtain s0 where
    "SceneComponent ic s0 (0 = (0::nat)) (0 = length [a, b, c] - 1)
       DURATION_PER_SCENE TRANSITION_DURATION 0 (F - real 0 * DURATION_PER_SCENE)
       durationInFrames = Inr r0" by auto
  from SceneComponent_fields(2) [OF this]
  have f0: "scene_opacity True False 90 30 F = Inr (rs_opacity r0)"
    by (simp add: DURATION_PER_SCENE_def TRANSITION_DURATION_def)
  from rendered_scene_at_member [OF ok a1] three obtain s1 where
    "SceneComponent ic s1 (1 = (0::nat)) (1 = length [a, b, c] - 1)
       DURATION_PER_SCENE TRANSITION_DURATION 1 (F - real 1 * DURATION_PER_SCENE)
       durationInFrames = Inr r1" by auto
  from SceneComponent_fields(2) [OF this]
  have f1: "scene_opacity False False 90 30 (F - 90) = Inr (rs_opacity r1)"
    by (simp add: DURATION_PER_SCENE_def TRANSITION_DURATION_def)
  have i0: "interpolate F [90, 120] [Num 1, Num 0] l r
      = Inr (interpolateFunction F (90, 120) (1, 0) l r)" for l r
    by (rule interpolate_two) simp
  have i1: "interpolate (F - 90) [0, 30] [Num 0, Num 1] l r
      = Inr (interpolateFunction (F - 90) (0, 30) (0, 1) l r)" for l r
    by (rule interpolate_two) simp
  have i2: "interpolate (F - 90) [90, 120] [Num 1, Num 0] l r
      = Inr (interpolateFunction (F - 90) (90, 120) (1, 0) l r)" for l r
    by (rule interpolate_two) simp
  have o0: "rs_opacity r0 = 1 - (F - 90) / 30"
    using f0 lo hi by (simp add: scene_opacity_def i0 interpolateFunction_def Let_def field_simps)
  have o1: "rs_opacity r1 = (F - 90) / 30"
    using f1 lo hi
    by (simp add: scene_opacity_def i1 i2 interpolateFunction_def Let_def field_simps min_def)
  show ?thesis unfolding a0 a1 by (simp add: o0 o1) (auto simp: field_simps)
qed

theorem crossfade_opacities_witness:
  "scenes three_scenes = Some [image_scene, image_scene, image_scene]
   \<and> map_option rs_opacity (rendered_scene_at (Animation no_colors 300 three_scenes 105) 0)
       = Some (1 / 2)
   \<and> map_option rs_opacity (rendered_scene_at (Animation no_colors 300 three_scenes 105) 1)
       = Some (1 / 2)"
proof -
  have three: "scenes three_scenes = Some [image_scene, image_scene, image_scene]"
    by (simp add: three_scenes_def)
  have "\<not> isl (Animation no_colors 300 three_scenes 105)" by code_simp
  then obtain out where ok: "Animation no_colors 300 three_scenes 105 = Inr out"
    by (cases "Animation no_colors 300 three_scenes 105") auto
  have lo: "(90::real) \<le> 105" and hi: "(105::real) < 120" by simp_all
  from crossfade_opacities [OF three lo hi ok] three show ?thesis
    unfolding ok by simp
qed


end
